theory Spec2Isabelle
  imports Main "HOL-Library.Word"
begin

unbundle bit_operations_syntax

section \<open>Conventions of the embedding\<close>

text \<open>
  The development embeds the C sources of the Huffman codec: \<^verbatim>\<open>bit_vector.c\<close>,
  \<^verbatim>\<open>huffman_element.c\<close>, \<^verbatim>\<open>huffman_list.c\<close>, \<^verbatim>\<open>huffman_tree.c\<close> and the driver with
  \<^verbatim>\<open>huffman_encode\<close> and \<^verbatim>\<open>huffman_decode\<close>.

  \<^item> \<^verbatim>\<open>uint8_t\<close> is \<open>8 word\<close>, \<^verbatim>\<open>uint64_t\<close> is \<open>64 word\<close>; their arithmetic wraps.
    \<^verbatim>\<open>int\<close>, \<^verbatim>\<open>int8_t\<close> and \<^verbatim>\<open>ssize_t\<close> results only ever hold small error codes, bits and
    file offsets, and are \<open>int\<close>.
  \<^item> A pointer parameter that every caller passes non-NULL is modelled by the object it
    points to, and a function that mutates the object returns its new state. The guard
    \<^verbatim>\<open>if (!p) return ...\<close> at the head of such a function is the case without an object and
    is not part of the model. Pointers that are NULL in ordinary runs (children of a node,
    the decoder's current node, the result of a search) are options.
  \<^item> A function returning either NULL or the pointer it was given returns \<open>NULL\<close> or
    \<open>SELF\<close> together with the state of the object after the call.
  \<^item> \<^verbatim>\<open>malloc\<close>, \<^verbatim>\<open>calloc\<close> and \<^verbatim>\<open>realloc\<close> succeed. The bytes that \<^verbatim>\<open>realloc\<close> adds are
    indeterminate in C; they are read from a parameter \<open>junk\<close>, indexed by position.
  \<^item> A file is its byte contents and the position of its descriptor. File offsets and node
    indices are \<open>nat\<close>: they are bounded by the size of a file, far below \<open>2 ^ 63\<close>.
    Writes transfer every byte; reads stop at the end of the file.
  \<^item> Undefined behaviour that a run of the program can reach (a NULL or uninitialised
    pointer that is dereferenced, a read past an allocation) is a value of type \<open>fault\<close>.
\<close>

datatype retptr = NULL | SELF

datatype fault = Null_Dereference | Uninitialised_Pointer | Out_Of_Bounds

type_synonym junk = "nat \<Rightarrow> 8 word"

subsection \<open>Files\<close>

record fdesc =
  bytes :: "8 word list"
  position :: nat

definition pwrite :: "fdesc \<Rightarrow> 8 word list \<Rightarrow> nat \<Rightarrow> nat \<Rightarrow> int \<times> fdesc" where
  "pwrite fd buf count offset =
     (let data = take count buf; old = bytes fd
      in if data = [] then (0, fd)
         else (int (length data),
               fd\<lparr>bytes := take offset old @ replicate (offset - length old) 0 @ data
                              @ drop (offset + length data) old\<rparr>))"

definition pread :: "fdesc \<Rightarrow> nat \<Rightarrow> nat \<Rightarrow> 8 word list" where
  "pread fd count offset = take count (drop offset (bytes fd))"

text \<open>\<^verbatim>\<open>write\<close> and \<^verbatim>\<open>read\<close> act at the position of the descriptor and advance it.\<close>

definition write_fd :: "fdesc \<Rightarrow> 8 word list \<Rightarrow> nat \<Rightarrow> int \<times> fdesc" where
  "write_fd fd buf count =
     (let (n, fd') = pwrite fd buf count (position fd)
      in (n, fd'\<lparr>position := position fd + nat n\<rparr>))"

definition read_fd :: "fdesc \<Rightarrow> nat \<Rightarrow> 8 word list \<times> fdesc" where
  "read_fd fd count =
     (let buf = pread fd count (position fd)
      in (buf, fd\<lparr>position := position fd + length buf\<rparr>))"

text \<open>A \<^verbatim>\<open>uint64_t\<close> in memory: eight bytes, least significant first (the byte order of the
  hosts the program is built for).\<close>

fun le_bytes :: "nat \<Rightarrow> 64 word \<Rightarrow> 8 word list" where
  "le_bytes 0 w = []"
| "le_bytes (Suc n) w = ucast w # le_bytes n (drop_bit 8 w)"

definition u64_bytes :: "64 word \<Rightarrow> 8 word list" where
  "u64_bytes w = le_bytes 8 w"

definition bytes_u64 :: "8 word list \<Rightarrow> 64 word" where
  "bytes_u64 bs = foldr (\<lambda>b acc. ucast b OR push_bit 8 acc) bs 0"

section \<open>Bit vector (\<^verbatim>\<open>bit_vector.c\<close>)\<close>

record bvector =
  vector :: "8 word list"
  vector_length :: "64 word"
  working_index :: "64 word"

definition VECTOR_FLAG_STREAM :: "8 word" where "VECTOR_FLAG_STREAM = 0"
definition VECTOR_FLAG_FULL :: "8 word" where "VECTOR_FLAG_FULL = 1"

definition VECTOR_BYTE_INDEX :: "64 word \<Rightarrow> nat" where
  "VECTOR_BYTE_INDEX index = unat (index div 8)"

definition VECTOR_BIT_INDEX :: "64 word \<Rightarrow> nat" where
  "VECTOR_BIT_INDEX index = unat (index AND 0x7)"

text \<open>The masks are \<^verbatim>\<open>int\<close> in C and are truncated when they are stored into a byte; bitwise
  operations commute with the truncation, so the masks are bytes here.\<close>

definition VECTOR_SET_STRING :: "64 word \<Rightarrow> 8 word" where
  "VECTOR_SET_STRING index = push_bit (VECTOR_BIT_INDEX index) 1"

definition VECTOR_CLEAR_STRING :: "64 word \<Rightarrow> 8 word" where
  "VECTOR_CLEAR_STRING index = NOT (VECTOR_SET_STRING index)"

definition VECTOR_CHECK_STRING :: "64 word \<Rightarrow> 8 word" where
  "VECTOR_CHECK_STRING index = VECTOR_SET_STRING index"

definition realloc :: "8 word list \<Rightarrow> nat \<Rightarrow> junk \<Rightarrow> 8 word list" where
  "realloc old n junk = take n old @ map junk [length old..<n]"

definition bvector_create :: "64 word \<Rightarrow> bvector option" where
  "bvector_create len =
     (if len = 0 then None
      else Some \<lparr>vector = replicate (unat (len div 8 + 1)) 0,
                 vector_length = len,
                 working_index = 0\<rparr>)"

definition bvector_set_bit :: "bvector \<Rightarrow> 64 word \<Rightarrow> retptr \<times> bvector" where
  "bvector_set_bit bvector index =
     (if index \<ge> vector_length bvector then (NULL, bvector)
      else (SELF, bvector\<lparr>vector := (vector bvector)
              [VECTOR_BYTE_INDEX index :=
                 vector bvector ! VECTOR_BYTE_INDEX index OR VECTOR_SET_STRING index]\<rparr>))"

definition bvector_clear_bit :: "bvector \<Rightarrow> 64 word \<Rightarrow> retptr \<times> bvector" where
  "bvector_clear_bit bvector index =
     (if index \<ge> vector_length bvector then (NULL, bvector)
      else (SELF, bvector\<lparr>vector := (vector bvector)
              [VECTOR_BYTE_INDEX index :=
                 vector bvector ! VECTOR_BYTE_INDEX index AND VECTOR_CLEAR_STRING index]\<rparr>))"

definition bvector_check_bit :: "bvector \<Rightarrow> 64 word \<Rightarrow> int" where
  "bvector_check_bit bvector index =
     (if index \<ge> vector_length bvector then - 2
      else if vector bvector ! VECTOR_BYTE_INDEX index AND VECTOR_CHECK_STRING index \<noteq> 0
           then 1 else 0)"

definition bvector_get_size :: "bvector \<Rightarrow> 8 word \<Rightarrow> 64 word" where
  "bvector_get_size bvector flag =
     (if flag = VECTOR_FLAG_FULL then vector_length bvector
      else if flag = VECTOR_FLAG_STREAM then working_index bvector
      else 0)"

definition bvector_resize :: "bvector \<Rightarrow> 64 word \<Rightarrow> junk \<Rightarrow> retptr \<times> bvector" where
  "bvector_resize bvector len junk =
     (SELF, bvector\<lparr>vector_length := len,
                    vector := realloc (vector bvector) (unat (len div 8 + 1)) junk\<rparr>)"

definition bvector_append_bit :: "bvector \<Rightarrow> 8 word \<Rightarrow> junk \<Rightarrow> retptr \<times> bvector" where
  "bvector_append_bit bvector bit_val junk =
     (if bit_val > 1 then (NULL, bvector)
      else
        let b1 = (if working_index bvector = vector_length bvector
                  then snd (bvector_resize bvector (vector_length bvector * 2) junk)
                  else bvector);
            b2 = (if bit_val = 0 then snd (bvector_clear_bit b1 (working_index b1))
                  else snd (bvector_set_bit b1 (working_index b1)))
        in (SELF, b2\<lparr>working_index := working_index b2 + 1\<rparr>))"

text \<open>The loop of \<^verbatim>\<open>bvector_append_vector\<close>. The \<^verbatim>\<open>int8_t\<close> result of
  \<^verbatim>\<open>bvector_check_bit\<close> is stored into a \<^verbatim>\<open>uint8_t\<close>.\<close>

function append_vector_loop ::
  "bvector \<Rightarrow> bvector \<Rightarrow> 64 word \<Rightarrow> 64 word \<Rightarrow> junk \<Rightarrow> bvector" where
  "append_vector_loop bvector copy_vector i append_length junk =
     (if i < append_length
      then let bit_val = (word_of_int (bvector_check_bit copy_vector i) :: 8 word)
           in append_vector_loop (snd (bvector_append_bit bvector bit_val junk)) copy_vector
                (i + 1) append_length junk
      else bvector)"
  by pat_completeness auto
termination
proof (relation "measure (\<lambda>(b, c, i, n, j). unat n - unat i)")
  show "wf (measure (\<lambda>(b, c, i, n, j). unat n - unat i))"
    by simp
next
  fix bvector copy_vector :: bvector and i append_length :: "64 word" and junk :: junk
    and x :: "8 word"
  assume lt: "i < append_length"
  have "1 + i \<noteq> 0"
  proof
    assume "1 + i = 0"
    then have "i = - 1" by (simp add: add_eq_0_iff)
    with lt show False by simp
  qed
  then have "unat (i + 1) = Suc (unat i)"
    by (simp add: unatSuc add.commute)
  with lt show "((snd (bvector_append_bit bvector x junk), copy_vector, i + 1, append_length, junk),
           (bvector, copy_vector, i, append_length, junk))
          \<in> measure (\<lambda>(b, c, i, n, j). unat n - unat i)"
    by (simp add: word_less_nat_alt)
qed

definition bvector_append_vector :: "bvector \<Rightarrow> bvector \<Rightarrow> 8 word \<Rightarrow> junk \<Rightarrow> retptr \<times> bvector" where
  "bvector_append_vector bvector copy_vector flag junk =
     (let append_length = bvector_get_size copy_vector flag
      in (SELF, append_vector_loop bvector copy_vector 0 append_length junk))"

text \<open>\<^verbatim>\<open>bvector_output\<close> hands \<^verbatim>\<open>length / 8 + 1\<close> bytes of the storage to \<^verbatim>\<open>pwrite\<close>; when the
  storage is shorter than that, the C code reads past the allocation.\<close>

definition bvector_output :: "bvector \<Rightarrow> fdesc \<Rightarrow> nat \<Rightarrow> 8 word \<Rightarrow> fault + int \<times> fdesc" where
  "bvector_output bvector fd offset flag =
     (let len = bvector_get_size bvector flag;
          size_to_write = 8;
          (bytes_written, fd1) = pwrite fd (u64_bytes len) size_to_write offset
      in if bytes_written < int size_to_write then Inr (- 2, fd1)
         else
           let offset1 = offset + nat bytes_written;
               len1 = len div 8 + 1;
               size_to_write1 = unat len1
           in if length (vector bvector) < size_to_write1 then Inl Out_Of_Bounds
              else
                let (bytes_written1, fd2) = pwrite fd1 (vector bvector) size_to_write1 offset1
                in if bytes_written1 < int size_to_write1 then Inr (- 4, fd2)
                   else Inr (int (offset1 + nat bytes_written1), fd2))"


text \<open>The loop of \<^verbatim>\<open>bvector_convert\<close> visits \<^verbatim>\<open>bit_string[0 .. strlen - 1]\<close> in order; the
  string is the list of its characters before the terminator.\<close>

fun convert_loop :: "string \<Rightarrow> bvector \<Rightarrow> junk \<Rightarrow> bvector option" where
  "convert_loop [] temp junk = Some temp"
| "convert_loop (bit_code # rest) temp junk =
     (case (if bit_code = CHR ''0'' then bvector_append_bit temp 0 junk
            else if bit_code = CHR ''1'' then bvector_append_bit temp 1 junk
            else (SELF, temp)) of
        (NULL, _) \<Rightarrow> None
      | (SELF, temp') \<Rightarrow> convert_loop rest temp' junk)"

definition bvector_convert :: "string \<Rightarrow> junk \<Rightarrow> bvector option" where
  "bvector_convert bit_string junk =
     (let len = (of_nat (length bit_string) :: 64 word)
      in case bvector_create len of
           None \<Rightarrow> None
         | Some temp \<Rightarrow>
             (case convert_loop bit_string temp junk of
                None \<Rightarrow> None
              | Some temp1 \<Rightarrow>
                  (case bvector_resize temp1 (working_index temp1) junk of
                     (NULL, _) \<Rightarrow> None
                   | (SELF, temp2) \<Rightarrow> Some temp2)))"

section \<open>Huffman element (\<^verbatim>\<open>huffman_element.c\<close>)\<close>

text \<open>The tree links of a node are its fields; the list links \<^verbatim>\<open>next\<close> and \<^verbatim>\<open>previous\<close> are
  the order of the nodes in the list that holds them.\<close>

datatype helement =
  Helement (element: "8 word") (leaf_node: "8 word") (frequency: "64 word")
    (left_child: "helement option") (right_child: "helement option")

definition DEFAULT_ELEMENT_FREQUENCY :: "64 word" where "DEFAULT_ELEMENT_FREQUENCY = 1"
definition SPECIAL_ELEMENT_FREQUENCY :: "64 word" where "SPECIAL_ELEMENT_FREQUENCY = 0"

definition helement_create :: "8 word \<Rightarrow> 8 word \<Rightarrow> 64 word \<Rightarrow> helement" where
  "helement_create elem leaf_node_flag freq =
     Helement elem leaf_node_flag
       (if freq = SPECIAL_ELEMENT_FREQUENCY then DEFAULT_ELEMENT_FREQUENCY else freq)
       None None"

fun set_frequency :: "helement \<Rightarrow> 64 word \<Rightarrow> helement" where
  "set_frequency (Helement e l f lc rc) freq = Helement e l freq lc rc"

fun set_left_child :: "helement \<Rightarrow> helement option \<Rightarrow> helement" where
  "set_left_child (Helement e l f lc rc) c = Helement e l f c rc"

fun set_right_child :: "helement \<Rightarrow> helement option \<Rightarrow> helement" where
  "set_right_child (Helement e l f lc rc) c = Helement e l f lc c"

text \<open>\<^verbatim>\<open>helement_swap_list(first, second)\<close> exchanges a node with its successor; \<open>k\<close> is the
  position of \<^verbatim>\<open>first\<close>.\<close>

definition helement_swap_list :: "helement list \<Rightarrow> nat \<Rightarrow> helement list" where
  "helement_swap_list ns k = ns[k := ns ! Suc k, Suc k := ns ! k]"

section \<open>Huffman list (\<^verbatim>\<open>huffman_list.c\<close>)\<close>

text \<open>The linked list starting at \<^verbatim>\<open>hlist->list\<close> is the list of its nodes from the head on.
  A pointer to a node of the list is the position of the node.\<close>

record hlist =
  list :: "helement list"
  count :: "64 word"

definition LIST_SPECIAL_ELEMENT :: "8 word" where "LIST_SPECIAL_ELEMENT = 0xFF"
definition LIST_BAD_COUNT :: "64 word" where "LIST_BAD_COUNT = 0xFFFFFFFFFFFFFFFF"

text \<open>\<^verbatim>\<open>_search\<close>: the first node that carries the element, whatever its leaf flag.\<close>

fun search_nodes :: "helement list \<Rightarrow> 8 word \<Rightarrow> nat option" where
  "search_nodes [] elem = None"
| "search_nodes (helement_node # rest) elem =
     (if element helement_node = elem then Some 0
      else map_option Suc (search_nodes rest elem))"

definition list_search :: "hlist \<Rightarrow> 8 word \<Rightarrow> nat option" where
  "list_search hlist elem = search_nodes (list hlist) elem"

text \<open>\<^verbatim>\<open>_add\<close>: a new node becomes the head.\<close>

definition list_add :: "hlist \<Rightarrow> 8 word \<Rightarrow> 8 word \<Rightarrow> 64 word \<Rightarrow> hlist" where
  "list_add hlist elem leaf_node_flag freq =
     hlist\<lparr>list := helement_create elem leaf_node_flag freq # list hlist,
           count := count hlist + 1\<rparr>"

text \<open>\<^verbatim>\<open>_fix_order\<close>: the node at position \<open>k\<close> moves towards the tail while its frequency
  exceeds that of its successor. The result also tells where the node has come to rest.\<close>

function list_fix_order :: "hlist \<Rightarrow> nat \<Rightarrow> hlist \<times> nat" where
  "list_fix_order hlist k =
     (if length (list hlist) \<le> Suc k then (hlist, k)
      else if frequency (list hlist ! k) \<le> frequency (list hlist ! Suc k) then (hlist, k)
      else list_fix_order (hlist\<lparr>list := helement_swap_list (list hlist) k\<rparr>) (Suc k))"
  by pat_completeness auto
termination
  by (relation "measure (\<lambda>(hlist, k). length (list hlist) - k)")
     (auto simp: helement_swap_list_def)

definition hlist_count :: "hlist \<Rightarrow> 64 word" where
  "hlist_count hlist = count hlist"

text \<open>\<^verbatim>\<open>_remove\<close> follows \<^verbatim>\<open>next\<close> twice from the head without a check.\<close>

definition list_remove :: "hlist \<Rightarrow> fault + hlist" where
  "list_remove hlist =
     (if hlist_count hlist < 2 then Inr hlist
      else case list hlist of
             first_temp # second_temp # third_temp \<Rightarrow>
               Inr (hlist\<lparr>list := third_temp, count := count hlist - 2\<rparr>)
           | _ \<Rightarrow> Inl Null_Dereference)"

definition hlist_create :: hlist where
  "hlist_create = \<lparr>list = [], count = 0\<rparr>"

text \<open>The result is the position of the node that was added or incremented, and the list.\<close>

definition hlist_add_increment_element :: "hlist \<Rightarrow> 8 word \<Rightarrow> 64 word \<Rightarrow> nat \<times> hlist" where
  "hlist_add_increment_element hlist elem freq =
     (let special_element = (elem = LIST_SPECIAL_ELEMENT \<and> freq \<noteq> SPECIAL_ELEMENT_FREQUENCY);
          leaf_node_flag = (if special_element then 0 else 1);
          helement_node = list_search hlist elem
      in case (if special_element then None else helement_node) of
           None \<Rightarrow>
             (let (hlist1, k) = list_fix_order (list_add hlist elem leaf_node_flag freq) 0
              in (k, hlist1))
         | Some n \<Rightarrow>
             (let found = list hlist ! n;
                  hlist1 = hlist\<lparr>list := (list hlist)[n := set_frequency found (frequency found + 1)]\<rparr>;
                  (hlist2, k) = list_fix_order hlist1 n
              in (k, hlist2)))"

text \<open>On success the two nodes at the head are handed out and removed.\<close>

definition hlist_get_two_min :: "hlist \<Rightarrow> fault + int \<times> (helement \<times> helement) option \<times> hlist" where
  "hlist_get_two_min hlist =
     (let cnt = hlist_count hlist
      in if cnt \<ge> 2 \<and> cnt \<noteq> LIST_BAD_COUNT
         then (case list hlist of
                 first # second # rest \<Rightarrow>
                   (case list_remove hlist of
                      Inl f \<Rightarrow> Inl f
                    | Inr hlist1 \<Rightarrow> Inr (0, Some (first, second), hlist1))
               | _ \<Rightarrow> Inl Null_Dereference)
         else Inr (- 2, None, hlist))"

section \<open>Huffman tree (\<^verbatim>\<open>huffman_tree.c\<close>)\<close>

record htree =
  root :: "helement option"
  count :: "64 word"
  parsed :: bool

type_synonym opcode_table = "8 word \<Rightarrow> string option"

definition TREE_BAD_COUNT :: "64 word" where "TREE_BAD_COUNT = 0xFFFFFFFFFFFFFFFF"
definition MAX_OPCODE :: nat where "MAX_OPCODE = 256"
definition TREE_INPUT_COUNT_SIZE :: nat where "TREE_INPUT_COUNT_SIZE = 8"

definition TREE_INPUT_OBJECT_OFFSET :: "nat \<Rightarrow> nat" where
  "TREE_INPUT_OBJECT_OFFSET index = 0 + TREE_INPUT_COUNT_SIZE + index * (1 + 1)"

definition TREE_INPUT_ELEMENT_OFFSET :: "nat \<Rightarrow> nat" where
  "TREE_INPUT_ELEMENT_OFFSET index = TREE_INPUT_OBJECT_OFFSET index"

definition TREE_INPUT_LEAFNODE_OFFSET :: "nat \<Rightarrow> nat" where
  "TREE_INPUT_LEAFNODE_OFFSET index = TREE_INPUT_OBJECT_OFFSET index + 1"

text \<open>\<^verbatim>\<open>_parse\<close>. The working opcode lives in a buffer of \<open>MAX_OPCODE\<close> bytes with its
  terminator; \<^verbatim>\<open>strcat\<close> on a full buffer writes past it. The table maps an element to the
  copy of the opcode made at its leaf.\<close>

fun tree_parse ::
  "helement \<Rightarrow> opcode_table \<Rightarrow> string \<Rightarrow> 64 word \<Rightarrow> fault + opcode_table \<times> 64 word" where
  "tree_parse (Helement e l f lc rc) opcode_table opcode_string cnt =
     (if l \<noteq> 0 then Inr (opcode_table(e \<mapsto> opcode_string), cnt + 1)
      else
        case (case lc of
                None \<Rightarrow> Inr (opcode_table, cnt + 1)
              | Some c \<Rightarrow>
                  if MAX_OPCODE \<le> length opcode_string + 1 then Inl Out_Of_Bounds
                  else tree_parse c opcode_table (opcode_string @ ''0'') (cnt + 1)) of
          Inl flt \<Rightarrow> Inl flt
        | Inr (table1, cnt1) \<Rightarrow>
            (case rc of
               None \<Rightarrow> Inr (table1, cnt1)
             | Some c \<Rightarrow>
                 if MAX_OPCODE \<le> length opcode_string + 1 then Inl Out_Of_Bounds
                 else tree_parse c table1 (opcode_string @ ''1'') cnt1))"

text \<open>\<^verbatim>\<open>_output\<close>: the element and the leaf flag of a node, then its left and right
  subtrees.\<close>

fun tree_output :: "helement \<Rightarrow> fdesc \<Rightarrow> nat \<Rightarrow> int \<times> fdesc" where
  "tree_output (Helement e l f lc rc) fd offset =
     (case pwrite fd [e] 1 offset of
        (bytes_written, fd1) \<Rightarrow>
          if bytes_written < 1 then (- 1, fd1)
          else
            (case pwrite fd1 [l] 1 (offset + nat bytes_written) of
               (bytes_written1, fd2) \<Rightarrow>
                 if bytes_written1 < 1 then (- 1, fd2)
                 else
                   (case (case lc of
                            None \<Rightarrow> (int (offset + nat bytes_written + nat bytes_written1), fd2)
                          | Some c \<Rightarrow>
                              tree_output c fd2 (offset + nat bytes_written + nat bytes_written1)) of
                      (ret, fd3) \<Rightarrow>
                        if lc \<noteq> None \<and> ret = - 1 then (- 1, fd3)
                        else
                          (case rc of
                             None \<Rightarrow> (ret, fd3)
                           | Some c \<Rightarrow>
                               (case tree_output c fd3 (nat ret) of
                                  (ret1, fd4) \<Rightarrow>
                                    if ret1 = - 1 then (- 1, fd4) else (ret1, fd4))))))"

text \<open>\<^verbatim>\<open>_input_object\<close>: a fresh node from the two bytes of the object at an index.\<close>

definition tree_input_object :: "fdesc \<Rightarrow> nat \<Rightarrow> helement option" where
  "tree_input_object fd index =
     (let element_offset = TREE_INPUT_ELEMENT_OFFSET index;
          leaf_flag_offset = TREE_INPUT_LEAFNODE_OFFSET index;
          buf = pread fd 1 element_offset
      in if length buf < 1 then None
         else
           let buf1 = pread fd 1 leaf_flag_offset
           in if length buf1 < 1 then None
              else Some (helement_create (hd buf) (hd buf1) SPECIAL_ELEMENT_FREQUENCY))"

text \<open>\<^verbatim>\<open>_input\<close>: the result \<open>None\<close> is \<^verbatim>\<open>TREE_BAD_COUNT\<close>. The children are attached to the
  node before the recursion descends into them, so a failed read leaves the part of the tree
  that was built.\<close>

function tree_input :: "fdesc \<Rightarrow> helement \<Rightarrow> nat \<Rightarrow> 8 word \<Rightarrow> nat option \<times> helement" where
  "tree_input fd helement_node index leaf_flag =
     (if leaf_flag \<noteq> 0 then (Some index, helement_node)
      else
        case tree_input_object fd (index + 1) of
          None \<Rightarrow> (None, helement_node)
        | Some left_child0 \<Rightarrow>
            (case tree_input fd left_child0 (index + 1) (leaf_node left_child0) of
               (None, left_child1) \<Rightarrow> (None, set_left_child helement_node (Some left_child1))
             | (Some rightc_index, left_child1) \<Rightarrow>
                 (case tree_input_object fd (rightc_index + 1) of
                    None \<Rightarrow> (None, set_left_child helement_node (Some left_child1))
                  | Some right_child0 \<Rightarrow>
                      (case tree_input fd right_child0 (rightc_index + 1) (leaf_node right_child0) of
                         (ret, right_child1) \<Rightarrow>
                           (ret, set_right_child
                                   (set_left_child helement_node (Some left_child1))
                                   (Some right_child1))))))"
  by pat_completeness auto

lemma tree_input_object_Some:
  "tree_input_object fd index = Some n \<Longrightarrow> index < length (bytes fd)"
  by (auto simp: tree_input_object_def pread_def Let_def TREE_INPUT_ELEMENT_OFFSET_def
      TREE_INPUT_OBJECT_OFFSET_def TREE_INPUT_COUNT_SIZE_def split: if_splits)

lemma tree_input_index_le:
  "tree_input_dom (fd, n, index, lf) \<Longrightarrow> tree_input fd n index lf = (Some r, n') \<Longrightarrow> index \<le> r"
proof (induction fd n index lf arbitrary: r n' rule: tree_input.pinduct)
  case (1 fd helement_node index leaf_flag)
  show ?case
  proof (cases "leaf_flag \<noteq> 0")
    case True
    with "1.hyps" "1.prems" show ?thesis
      by (simp add: tree_input.psimps)
  next
    case False
    from "1.prems" False "1.hyps" obtain lc0 ri lc1 rc0 rc1 where
      lc0: "tree_input_object fd (index + 1) = Some lc0" and
      l: "tree_input fd lc0 (index + 1) (leaf_node lc0) = (Some ri, lc1)" and
      rc0: "tree_input_object fd (ri + 1) = Some rc0" and
      r: "tree_input fd rc0 (ri + 1) (leaf_node rc0) = (Some r, rc1)"
      by (auto simp: tree_input.psimps split: option.splits prod.splits)
    from "1.IH"(2)[OF False lc0 l[symmetric] refl rc0 r] have "ri + 1 \<le> r" .
    moreover from "1.IH"(1)[OF False lc0 l] have "index + 1 \<le> ri" .
    ultimately show ?thesis by simp
  qed
qed

termination tree_input
proof (relation "measure (\<lambda>(fd, n, index, lf). length (bytes fd) - index)", goal_cases)
  case 1
  show ?case by simp
next
  case (2 fd helement_node index leaf_flag x2)
  then show ?case
    by (auto dest: tree_input_object_Some)
next
  case (3 fd helement_node index leaf_flag x2 x y x2a x2b)
  then have res: "tree_input fd x2 (index + 1) (leaf_node x2) = (Some x2a, y)"
    and dom: "tree_input_dom (fd, x2, index + 1, leaf_node x2)"
    and obj: "tree_input_object fd (x2a + 1) = Some x2b"
    by simp_all
  from tree_input_index_le[OF dom res] have "index + 1 \<le> x2a" .
  moreover from obj have "x2a + 1 < length (bytes fd)"
    by (rule tree_input_object_Some)
  ultimately show ?case
    by simp
qed

definition htree_create :: htree where
  "htree_create = \<lparr>root = None, count = 0, parsed = False\<rparr>"

definition htree_add_element :: "htree \<Rightarrow> helement option \<Rightarrow> helement option \<times> htree" where
  "htree_add_element htree helement_node =
     (let htree1 = htree\<lparr>parsed := False\<rparr>
      in if root htree1 = None
         then (helement_node, htree1\<lparr>root := helement_node, count := count htree1 + 1\<rparr>)
         else (helement_node, htree1))"

text \<open>\<^verbatim>\<open>htree_count\<close> overwrites its parameter with NULL and returns the constant.\<close>

definition htree_count :: "htree \<Rightarrow> 64 word" where
  "htree_count htree = 0"

definition htree_connect :: "helement \<Rightarrow> helement \<Rightarrow> helement \<Rightarrow> int \<times> helement" where
  "htree_connect parent lchild rchild =
     (if leaf_node parent \<noteq> 0 then (- 2, parent)
      else if leaf_node rchild \<noteq> 0
           then (0, set_right_child (set_left_child parent (Some lchild)) (Some rchild))
           else (0, set_right_child (set_left_child parent (Some rchild)) (Some lchild)))"

definition htree_parse :: "htree \<Rightarrow> fault + opcode_table option \<times> htree" where
  "htree_parse htree =
     (case root htree of
        None \<Rightarrow> Inr (None, htree)
      | Some r \<Rightarrow>
          (case tree_parse r (\<lambda>i. None) [] 0 of
             Inl flt \<Rightarrow> Inl flt
           | Inr (opcode_table, cnt) \<Rightarrow>
               Inr (Some opcode_table, htree\<lparr>parsed := True, count := cnt\<rparr>)))"

text \<open>\<^verbatim>\<open>htree_output\<close> writes the count with \<^verbatim>\<open>write\<close>, at the position of the descriptor, and
  the nodes with \<^verbatim>\<open>pwrite\<close>, from \<^verbatim>\<open>offset + 8\<close> on. It hands the root to \<^verbatim>\<open>_output\<close> without
  a check.\<close>

definition htree_output :: "htree \<Rightarrow> fdesc \<Rightarrow> nat \<Rightarrow> fault + int \<times> fdesc" where
  "htree_output htree fd offset =
     (if \<not> parsed htree then Inr (- 2, fd)
      else if count htree < 1 then Inr (- 3, fd)
      else
        case write_fd fd (u64_bytes (count htree)) 8 of
          (bytes_written, fd1) \<Rightarrow>
            if bytes_written < 8 then Inr (- 4, fd1)
            else
              (case root htree of
                 None \<Rightarrow> Inl Null_Dereference
               | Some r \<Rightarrow>
                   (case tree_output r fd1 (offset + 8) of
                      (ret, fd2) \<Rightarrow> if ret = - 1 then Inr (- 5, fd2) else Inr (ret, fd2))))"

text \<open>\<^verbatim>\<open>htree_input\<close> reads the count with \<^verbatim>\<open>read\<close>, passes \<^verbatim>\<open>ROOT_LEAF_FLAG = 0\<close> for the root
  whatever the flag in the file says, and ignores the result of \<^verbatim>\<open>_input\<close>.\<close>

definition htree_input :: "fdesc \<Rightarrow> htree option \<times> fdesc" where
  "htree_input fd =
     (case read_fd fd TREE_INPUT_COUNT_SIZE of
        (buf, fd1) \<Rightarrow>
          if length buf < TREE_INPUT_COUNT_SIZE then (None, fd1)
          else
            (case tree_input_object fd1 0 of
               None \<Rightarrow> (None, fd1)
             | Some helement_node \<Rightarrow>
                 (Some (htree_create\<lparr>count := bytes_u64 buf,
                                     root := Some (snd (tree_input fd1 helement_node 0 0))\<rparr>),
                  fd1)))"

text \<open>\<^verbatim>\<open>htree_state_step\<close>: the result is the next node and the value left in \<^verbatim>\<open>*element\<close>.
  The child is dereferenced without a check.\<close>

definition htree_state_step ::
  "htree \<Rightarrow> helement option \<Rightarrow> int \<Rightarrow> int \<Rightarrow> fault + helement option \<times> int" where
  "htree_state_step htree helement_node elem opcode =
     (case helement_node of
        None \<Rightarrow> Inr (None, elem)
      | Some n \<Rightarrow>
          if opcode > 1 \<or> opcode < 0 then Inr (None, elem)
          else
            (case (if opcode = 0 then left_child n else right_child n) of
               None \<Rightarrow> Inl Null_Dereference
             | Some c \<Rightarrow>
                 if leaf_node c \<noteq> 0 then Inr (root htree, uint (element c))
                 else Inr (Some c, - 1)))"

section \<open>Encoder and decoder\<close>

text \<open>The result of a run: \<^verbatim>\<open>return 0\<close>, or the message of \<^verbatim>\<open>ERROR_DEBUG\<close> (which returns
  \<^verbatim>\<open>errno\<close>), each with the state of the output file.\<close>

datatype outcome = Done fdesc | Error_Debug string fdesc

definition array_append :: "8 word list \<Rightarrow> 8 word list \<Rightarrow> nat \<Rightarrow> 8 word list" where
  "array_append dest src src_length = dest @ take src_length src"

text \<open>First pass of \<^verbatim>\<open>huffman_encode\<close>: one call per byte of the input.\<close>

definition build_distribution :: "8 word list \<Rightarrow> hlist" where
  "build_distribution input =
     foldl (\<lambda>distribution_list elem.
              snd (hlist_add_increment_element distribution_list elem SPECIAL_ELEMENT_FREQUENCY))
       hlist_create input"

lemma length_list_fix_order:
  "length (list (fst (list_fix_order hlist k))) = length (list hlist)"
proof (induction hlist k rule: list_fix_order.induct)
  case (1 hlist k)
  then show ?case
    by (subst list_fix_order.simps) (simp add: helement_swap_list_def)
qed

lemma length_hlist_add_increment_element:
  "length (list (snd (hlist_add_increment_element hlist elem freq))) \<le> Suc (length (list hlist))"
proof -
  have a: "length (list (fst (list_fix_order (list_add hlist elem lf freq) 0)))
      = Suc (length (list hlist))" for lf
    by (simp only: length_list_fix_order) (simp add: list_add_def)
  have b: "length (list (fst (list_fix_order (hlist\<lparr>list := (list hlist)[n := x]\<rparr>) n)))
      = length (list hlist)" for n x
    by (simp only: length_list_fix_order) simp
  show ?thesis
  proof (cases "if (elem = LIST_SPECIAL_ELEMENT \<and> freq \<noteq> SPECIAL_ELEMENT_FREQUENCY) then None else list_search hlist elem")
    case None
    then show ?thesis
      unfolding hlist_add_increment_element_def Let_def
      using a by (simp only: option.case split_beta snd_conv)
  next
    case (Some n)
    then show ?thesis
      unfolding hlist_add_increment_element_def Let_def
      using b by (simp only: option.case split_beta snd_conv)
  qed
qed

lemma merge_step_decreases:
  assumes "hlist_get_two_min l = Inr (ret, Some (a, b), l1)"
    and "hlist_add_increment_element l1 e f = (p, l2)"
  shows "length (list l2) < length (list l)"
proof -
  from assms(1) have "Suc (Suc (length (list l1))) = length (list l)"
    by (auto simp: hlist_get_two_min_def list_remove_def Let_def
        split: if_splits list.splits sum.splits)
  moreover from length_hlist_add_increment_element[of l1 e f] assms(2)
  have "length (list l2) \<le> Suc (length (list l1))"
    by simp
  ultimately show ?thesis
    by simp
qed

text \<open>The merge loop. \<open>parent\<close> is \<open>None\<close> until the loop body has assigned the variable,
  which is declared without a value.\<close>

function merge_loop :: "hlist \<Rightarrow> nat option \<Rightarrow> fault + string option \<times> hlist \<times> nat option" where
  "merge_loop distribution_list parent =
     (case hlist_get_two_min distribution_list of
        Inl flt \<Rightarrow> Inl flt
      | Inr (ret, mins, list1) \<Rightarrow>
          if ret \<ge> 0
          then (case mins of
                  None \<Rightarrow> Inl Uninitialised_Pointer
                | Some (min_first, min_second) \<Rightarrow>
                    (case hlist_add_increment_element list1 LIST_SPECIAL_ELEMENT
                            (frequency min_first + frequency min_second) of
                       (p, list2) \<Rightarrow>
                         (case htree_connect (list list2 ! p) min_first min_second of
                            (ret1, node) \<Rightarrow>
                              if ret1 \<noteq> 0
                              then Inr (Some ''Error On Connection'',
                                        list2\<lparr>list := (list list2)[p := node]\<rparr>, Some p)
                              else merge_loop (list2\<lparr>list := (list list2)[p := node]\<rparr>)
                                     (Some p))))
          else Inr (None, list1, parent))"
  by pat_completeness auto
termination
proof (relation "measure (\<lambda>(l, p). length (list l))", goal_cases)
  case 1
  show ?case by simp
next
  case (2 distribution_list parent b x y x2 ya xa xb yb xc yc xd yd)
  then have "hlist_get_two_min distribution_list = Inr (x, Some (xb, yb), ya)"
    and "hlist_add_increment_element ya LIST_SPECIAL_ELEMENT (frequency xb + frequency yb) = (xc, yc)"
    by simp_all
  then have "length (list yc) < length (list distribution_list)"
    by (rule merge_step_decreases)
  then show ?case
    by simp
qed

text \<open>The table of vector opcodes, for the indices \<open>0\<close> to \<open>255\<close> in turn; \<open>None\<close> is the
  exit through \<^verbatim>\<open>ERROR_DEBUG\<close> when a conversion returns NULL.\<close>

fun convert_table :: "nat list \<Rightarrow> opcode_table \<Rightarrow> junk \<Rightarrow> (8 word \<Rightarrow> bvector option) option" where
  "convert_table [] ascii_opcode_table junk = Some (\<lambda>i. None)"
| "convert_table (i # rest) ascii_opcode_table junk =
     (case ascii_opcode_table (of_nat i) of
        None \<Rightarrow> convert_table rest ascii_opcode_table junk
      | Some opcode \<Rightarrow>
          (case bvector_convert opcode junk of
             None \<Rightarrow> None
           | Some v \<Rightarrow>
               map_option (\<lambda>vector_opcode_table. vector_opcode_table(of_nat i \<mapsto> v))
                 (convert_table rest ascii_opcode_table junk)))"

text \<open>Second pass, bit mode. \<^verbatim>\<open>bvector_append_vector\<close> returns at once when the vector to
  copy is NULL.\<close>

definition encode_bits ::
  "(8 word \<Rightarrow> bvector option) \<Rightarrow> 8 word list \<Rightarrow> bvector \<Rightarrow> junk \<Rightarrow> bvector" where
  "encode_bits vector_opcode_table input vector_opcodes junk =
     foldl (\<lambda>acc elem.
              case vector_opcode_table elem of
                None \<Rightarrow> acc
              | Some copy_vector \<Rightarrow>
                  snd (bvector_append_vector acc copy_vector VECTOR_FLAG_FULL junk))
       vector_opcodes input"

text \<open>Second pass, ASCII mode. \<^verbatim>\<open>strlen\<close> of a missing table entry dereferences NULL.\<close>

fun encode_ascii :: "opcode_table \<Rightarrow> 8 word list \<Rightarrow> 8 word list \<Rightarrow> fault + 8 word list" where
  "encode_ascii ascii_opcode_table [] ascii_opcodes = Inr ascii_opcodes"
| "encode_ascii ascii_opcode_table (elem # rest) ascii_opcodes =
     (case ascii_opcode_table elem of
        None \<Rightarrow> Inl Null_Dereference
      | Some opcode \<Rightarrow>
          encode_ascii ascii_opcode_table rest
            (array_append ascii_opcodes (map of_char opcode) (length opcode)))"

text \<open>\<^verbatim>\<open>huffman_encode\<close>. \<open>ascii_set\<close> is the flag \<^verbatim>\<open>FLAG_ASCII\<close>; \<open>input\<close> is the contents of
  the input file, which both passes read from its start. The vector opcodes are prepared in
  bit mode only; the result of \<^verbatim>\<open>bvector_output\<close> is not looked at.\<close>

definition huffman_encode :: "bool \<Rightarrow> 8 word list \<Rightarrow> fdesc \<Rightarrow> junk \<Rightarrow> fault + outcome" where
  "huffman_encode ascii_set input out_fd junk =
     (case merge_loop (build_distribution input) None of
        Inl flt \<Rightarrow> Inl flt
      | Inr (Some msg, distribution_list, parent) \<Rightarrow> Inr (Error_Debug msg out_fd)
      | Inr (None, distribution_list, parent) \<Rightarrow>
          (case parent of
             None \<Rightarrow> Inl Uninitialised_Pointer
           | Some p \<Rightarrow>
               (case htree_parse
                       (snd (htree_add_element htree_create (Some (list distribution_list ! p)))) of
                  Inl flt \<Rightarrow> Inl flt
                | Inr (None, distribution_tree) \<Rightarrow> Inr (Error_Debug ''Error On Parse'' out_fd)
                | Inr (Some ascii_opcode_table, distribution_tree) \<Rightarrow>
                    if ascii_set
                    then (case htree_output distribution_tree out_fd 0 of
                            Inl flt \<Rightarrow> Inl flt
                          | Inr (offset, out_fd1) \<Rightarrow>
                              if offset < 0 then Inr (Error_Debug ''Error On Output'' out_fd1)
                              else
                                (case encode_ascii ascii_opcode_table input [] of
                                   Inl flt \<Rightarrow> Inl flt
                                 | Inr ascii_opcodes \<Rightarrow>
                                     (case pwrite out_fd1 ascii_opcodes
                                             (length ascii_opcodes) (nat offset) of
                                        (bytes_written, out_fd2) \<Rightarrow>
                                          if bytes_written < int (length ascii_opcodes)
                                          then Inr (Error_Debug ''Error On Write'' out_fd2)
                                          else Inr (Done out_fd2))))
                    else (case bvector_create 1 of
                            None \<Rightarrow> Inr (Error_Debug ''Error On Create'' out_fd)
                          | Some vector_opcodes \<Rightarrow>
                              (case convert_table [0..<256] ascii_opcode_table junk of
                                 None \<Rightarrow> Inr (Error_Debug ''Error On Convert'' out_fd)
                               | Some vector_opcode_table \<Rightarrow>
                                   (case htree_output distribution_tree out_fd 0 of
                                      Inl flt \<Rightarrow> Inl flt
                                    | Inr (offset, out_fd1) \<Rightarrow>
                                        if offset < 0
                                        then Inr (Error_Debug ''Error On Output'' out_fd1)
                                        else
                                          (case bvector_output
                                                  (encode_bits vector_opcode_table input
                                                     vector_opcodes junk)
                                                  out_fd1 (nat offset) VECTOR_FLAG_STREAM of
                                             Inl flt \<Rightarrow> Inl flt
                                           | Inr (ret, out_fd2) \<Rightarrow> Inr (Done out_fd2))))))))"

text \<open>The opcodes of the decoding loop, in the order of its iterations: bit \<open>i\<close> of the
  vector for \<open>i\<close> below its stream length, or the bytes of the body less \<open>48\<close>.\<close>

definition vector_opcode_stream :: "bvector \<Rightarrow> int list" where
  "vector_opcode_stream vector_opcodes =
     map (\<lambda>i. bvector_check_bit vector_opcodes (of_nat i))
       [0..<unat (bvector_get_size vector_opcodes VECTOR_FLAG_STREAM)]"


text \<open>The decoding loop of \<^verbatim>\<open>huffman_decode\<close>: one state step per opcode; the element is
  appended whenever \<^verbatim>\<open>decoded_element\<close> is not negative after the step.\<close>

fun decode_steps ::
  "htree \<Rightarrow> int list \<Rightarrow> helement option \<Rightarrow> int \<Rightarrow> 8 word list
     \<Rightarrow> fault + helement option \<times> 8 word list" where
  "decode_steps constructed_tree [] temp_ptr decoded_element decoded_string =
     Inr (temp_ptr, decoded_string)"
| "decode_steps constructed_tree (opcode # rest) temp_ptr decoded_element decoded_string =
     (case htree_state_step constructed_tree temp_ptr decoded_element opcode of
        Inl flt \<Rightarrow> Inl flt
      | Inr (temp_ptr1, decoded_element1) \<Rightarrow>
          decode_steps constructed_tree rest temp_ptr1 decoded_element1
            (if decoded_element1 \<ge> 0
             then array_append decoded_string [word_of_int decoded_element1] 1
             else decoded_string))"


section \<open>Notions used in the statements\<close>

text \<open>The number of nodes that \<^verbatim>\<open>_parse\<close> visits from a node: the node, and the nodes below it
  unless it is a leaf.\<close>

fun parse_reach :: "helement \<Rightarrow> nat" where
  "parse_reach (Helement e l f lc rc) =
     (if l \<noteq> 0 then 1
      else 1 + (case lc of None \<Rightarrow> 0 | Some c \<Rightarrow> parse_reach c)
             + (case rc of None \<Rightarrow> 0 | Some c \<Rightarrow> parse_reach c))"

text \<open>Bit \<open>i\<close> of the storage: bit \<open>i mod 8\<close> of byte \<open>i div 8\<close>.\<close>

definition getbit :: "bvector \<Rightarrow> nat \<Rightarrow> bool" where
  "getbit v i = bit (vector v ! (i div 8)) (i mod 8)"

text \<open>The storage as \<^verbatim>\<open>bvector_create\<close> and \<^verbatim>\<open>bvector_resize\<close> allocate it.\<close>

definition alloc_ok :: "bvector \<Rightarrow> bool" where
  "alloc_ok v \<longleftrightarrow> length (vector v) = unat (vector_length v) div 8 + 1"

text \<open>The characters \<open>0\<close> and \<open>1\<close> of a string, in order, as bit values.\<close>

definition valid_bits :: "string \<Rightarrow> int list" where
  "valid_bits s = map (\<lambda>c. if c = CHR ''1'' then 1 else 0)
                    (filter (\<lambda>c. c = CHR ''0'' \<or> c = CHR ''1'') s)"

text \<open>The first \<open>n\<close> bits of a vector as \<^verbatim>\<open>bvector_check_bit\<close> returns them.\<close>

definition bvector_bits :: "bvector \<Rightarrow> nat \<Rightarrow> int list" where
  "bvector_bits v n = map (\<lambda>i. bvector_check_bit v (of_nat i)) [0..<n]"

text \<open>The shape of a Huffman tree: a leaf has no children, any other node has both.\<close>

fun full_tree :: "helement \<Rightarrow> bool" where
  "full_tree (Helement e l f lc rc) =
     (if l \<noteq> 0 then lc = None \<and> rc = None
      else case lc of
             None \<Rightarrow> False
           | Some a \<Rightarrow> (case rc of None \<Rightarrow> False | Some b \<Rightarrow> full_tree a \<and> full_tree b))"

text \<open>The element and the leaf flag of every node, in pre-order, and the bytes they make.\<close>

fun preorder :: "helement \<Rightarrow> (8 word \<times> 8 word) list" where
  "preorder (Helement e l f lc rc) =
     (e, l) # (case lc of None \<Rightarrow> [] | Some a \<Rightarrow> preorder a)
            @ (case rc of None \<Rightarrow> [] | Some b \<Rightarrow> preorder b)"

definition serial :: "helement \<Rightarrow> 8 word list" where
  "serial n = concat (map (\<lambda>(e, l). [e, l]) (preorder n))"

text \<open>The same tree with every frequency at the default, as \<^verbatim>\<open>_input_object\<close> creates nodes.\<close>

fun default_frequency :: "helement \<Rightarrow> helement" where
  "default_frequency (Helement e l f lc rc) =
     Helement e l DEFAULT_ELEMENT_FREQUENCY
       (case lc of None \<Rightarrow> None | Some a \<Rightarrow> Some (default_frequency a))
       (case rc of None \<Rightarrow> None | Some b \<Rightarrow> Some (default_frequency b))"


definition truncated_tree :: htree where
  "truncated_tree =
     \<lparr>root = Some (Helement 255 0 1
               (Some (Helement 255 0 1 (Some (Helement 97 1 1 None None))
                        (Some (Helement 98 1 1 None None))))
               (Some (Helement 99 1 1 None None))),
      count = 5, parsed = False\<rparr>"


section \<open>Properties of the tree interface\<close>

lemma tree_parse_count:
  "tree_parse n tbl s c = Inr (tbl', c') \<Longrightarrow> c' = c + of_nat (parse_reach n)"
proof (induction n tbl s c arbitrary: tbl' c' rule: tree_parse.induct)
  case (1 e l f lc rc opcode_table opcode_string cnt)
  show ?case
  proof (cases "l \<noteq> 0")
    case True
    with "1.prems" show ?thesis by simp
  next
    case False
    then have l0: "l = 0" by simp
    obtain t1 c1 where left: "(case lc of None \<Rightarrow> Inr (opcode_table, cnt + 1)
              | Some c \<Rightarrow> if MAX_OPCODE \<le> length opcode_string + 1 then Inl Out_Of_Bounds
                  else tree_parse c opcode_table (opcode_string @ ''0'') (cnt + 1)) = Inr (t1, c1)"
      using "1.prems" l0 by (auto split: sum.splits)
    have c1: "c1 = cnt + 1 + of_nat (case lc of None \<Rightarrow> 0 | Some c \<Rightarrow> parse_reach c)"
    proof (cases lc)
      case None
      with left show ?thesis by simp
    next
      case (Some c)
      with left have ok: "\<not> MAX_OPCODE \<le> length opcode_string + 1"
        and "tree_parse c opcode_table (opcode_string @ ''0'') (cnt + 1) = Inr (t1, c1)"
        by (auto split: if_splits)
      from "1.IH"(1)[OF False Some ok this(2)] Some show ?thesis by simp
    qed
    have right: "(case rc of None \<Rightarrow> Inr (t1, c1)
             | Some c \<Rightarrow> if MAX_OPCODE \<le> length opcode_string + 1 then Inl Out_Of_Bounds
                 else tree_parse c t1 (opcode_string @ ''1'') c1) = Inr (tbl', c')"
      using "1.prems" l0 left by simp
    have "c' = c1 + of_nat (case rc of None \<Rightarrow> 0 | Some c \<Rightarrow> parse_reach c)"
    proof (cases rc)
      case None
      with right show ?thesis by simp
    next
      case (Some c)
      with right have ok: "\<not> MAX_OPCODE \<le> length opcode_string + 1"
        and r: "tree_parse c t1 (opcode_string @ ''1'') c1 = Inr (tbl', c')"
        by (auto split: if_splits)
      from "1.IH"(2)[OF False left refl Some ok r] Some show ?thesis by simp
    qed
    with c1 l0 show ?thesis by simp
  qed
qed

text \<open>
  Claim C9. \<^verbatim>\<open>htree_count\<close> returns 0 for every tree, also for a tree that \<^verbatim>\<open>htree_parse\<close> has
  just parsed; the number of nodes the parse visited is in the field \<open>count\<close> of the parsed
  tree, not in the result of the accessor.
\<close>

theorem htree_count_zero:
  "htree_count htree = 0 \<and>
   (\<forall>tbl htree'. htree_parse htree = Inr (Some tbl, htree') \<longrightarrow>
      htree_count htree' = 0 \<and>
      (\<exists>r. root htree = Some r \<and> count htree' = of_nat (parse_reach r)))"
  by (auto simp: htree_count_def htree_parse_def split: option.splits sum.splits
      dest: tree_parse_count)

theorem htree_count_zero_witness:
  "\<exists>tbl htree'.
     htree_parse \<lparr>root = Some (Helement 255 0 2 (Some (Helement 97 1 1 None None))
                                  (Some (Helement 98 1 1 None None))),
                  count = 0, parsed = False\<rparr> = Inr (Some tbl, htree') \<and>
     htree_count htree' = 0 \<and> count htree' = 3"
proof -
  let ?t = "\<lparr>root = Some (Helement 255 0 2 (Some (Helement 97 1 1 None None))
                                  (Some (Helement 98 1 1 None None))),
             count = 0, parsed = False\<rparr>"
  obtain tbl htree' where p: "htree_parse ?t = Inr (Some tbl, htree')"
    by (simp add: htree_parse_def MAX_OPCODE_def)
  with htree_count_zero[of ?t] have "htree_count htree' = 0 \<and> count htree' = 3"
    by simp
  with p show ?thesis
    by blast
qed

text \<open>
  Claim C7. \<^verbatim>\<open>htree_output\<close> returns \<open>-2\<close> for a tree that has not been parsed and \<open>-3\<close> for
  a parsed tree whose count is below 1; in both cases the file is returned as it was.
\<close>

theorem htree_output_errors:
  "(\<not> parsed htree \<longrightarrow> htree_output htree fd offset = Inr (- 2, fd)) \<and>
   (parsed htree \<and> count htree < 1 \<longrightarrow> htree_output htree fd offset = Inr (- 3, fd))"
  by (simp add: htree_output_def)

theorem htree_output_errors_witness:
  "htree_output \<lparr>root = None, count = 5, parsed = False\<rparr> \<lparr>bytes = [1, 2], position = 1\<rparr> 0
     = Inr (- 2, \<lparr>bytes = [1, 2], position = 1\<rparr>) \<and>
   htree_output \<lparr>root = Some (Helement 97 1 1 None None), count = 0, parsed = True\<rparr>
       \<lparr>bytes = [1, 2], position = 1\<rparr> 4
     = Inr (- 3, \<lparr>bytes = [1, 2], position = 1\<rparr>)"
  using htree_output_errors[of "\<lparr>root = None, count = 5, parsed = False\<rparr>"
      "\<lparr>bytes = [1, 2], position = 1\<rparr>" 0]
    htree_output_errors[of "\<lparr>root = Some (Helement 97 1 1 None None), count = 0, parsed = True\<rparr>"
      "\<lparr>bytes = [1, 2], position = 1\<rparr>" 4]
  by simp

section \<open>Properties of the bit vector\<close>

text \<open>
  Claim C10. \<^verbatim>\<open>bvector_append_bit\<close> with a bit argument above 1 returns NULL and leaves
  the storage, the length and the working index of the vector as they were; the function
  returns the vector exactly when the bit argument is 0 or 1.
\<close>

theorem bvector_append_bit_rejects:
  "(1 < b \<longrightarrow> bvector_append_bit v b junk = (NULL, v)) \<and>
   (fst (bvector_append_bit v b junk) = SELF \<longleftrightarrow> b = 0 \<or> b = 1)"
proof -
  have "b = 0 \<or> b = 1" if "\<not> 1 < b"
    using that by (metis linorder_neqE_linordered_idom word_less_1 not_less_iff_gr_or_eq)
  then show ?thesis
    by (auto simp: bvector_append_bit_def Let_def)
qed

theorem bvector_append_bit_rejects_witness:
  "bvector_append_bit \<lparr>vector = [5], vector_length = 3, working_index = 3\<rparr> 2 (\<lambda>i. 0)
     = (NULL, \<lparr>vector = [5], vector_length = 3, working_index = 3\<rparr>)"
  using bvector_append_bit_rejects[of 2 "\<lparr>vector = [5], vector_length = 3, working_index = 3\<rparr>"
      "\<lambda>i. 0"]
  by simp

lemma length_le_bytes: "length (le_bytes n w) = n"
  by (induction n arbitrary: w) simp_all

lemma length_u64_bytes: "length (u64_bytes w) = 8"
  by (simp add: u64_bytes_def length_le_bytes)

lemma unat_div8_plus1: "unat ((w :: 64 word) div 8 + 1) = unat w div 8 + 1"
proof -
  have "unat (w div 8) = unat w div 8"
    by (simp add: unat_div)
  moreover have "unat w < 2 ^ 64"
    using unsigned_less[of w] by simp
  ultimately have "unat (w div 8) + 1 < 2 ^ 64"
    by simp
  then have "unat (w div 8 + 1) = unat (w div 8) + 1"
    by (simp add: unat_add_lem[THEN iffD1])
  with \<open>unat (w div 8) = unat w div 8\<close> show ?thesis by simp
qed

lemma pwrite_full:
  "buf \<noteq> [] \<Longrightarrow> pwrite fd buf (length buf) offset =
     (int (length buf),
      fd\<lparr>bytes := take offset (bytes fd) @ replicate (offset - length (bytes fd)) 0 @ buf
                     @ drop (offset + length buf) (bytes fd)\<rparr>)"
  by (simp add: pwrite_def Let_def)

lemma overwrite_twice:
  assumes "length a = m" and "length b = n"
  shows "take (offset + m) (take offset old @ replicate (offset - length old) 0 @ a @ drop (offset + m) old)
     @ replicate (offset + m - length (take offset old @ replicate (offset - length old) 0 @ a @ drop (offset + m) old)) 0
     @ b
     @ drop (offset + m + n) (take offset old @ replicate (offset - length old) 0 @ a @ drop (offset + m) old)
   = take offset old @ replicate (offset - length old) (0::8 word) @ a @ b @ drop (offset + m + n) old"
  using assms by (cases "offset \<le> length old") (auto simp: min_def ac_simps)

text \<open>
  Claim C3, as the code has it. \<^verbatim>\<open>bvector_output\<close> writes the eight bytes of
  \<^verbatim>\<open>bvector_get_size\<close> at the offset and then \<open>size div 8 + 1\<close> bytes of the storage (the
  quotient rounded down, not up) at the offset plus 8, and returns the offset plus 8 plus
  that number of bytes. The storage has to hold that many bytes, as it does for a vector
  whose working index does not exceed its length.
\<close>

theorem bvector_output_layout:
  assumes "unat (bvector_get_size v flag) div 8 + 1 \<le> length (vector v)"
  shows "bvector_output v fd offset flag =
           Inr (int (offset + 8 + (unat (bvector_get_size v flag) div 8 + 1)),
                fd\<lparr>bytes := take offset (bytes fd) @ replicate (offset - length (bytes fd)) 0
                        @ u64_bytes (bvector_get_size v flag)
                        @ take (unat (bvector_get_size v flag) div 8 + 1) (vector v)
                        @ drop (offset + 8 + (unat (bvector_get_size v flag) div 8 + 1)) (bytes fd)\<rparr>)"
proof -
  let ?len = "bvector_get_size v flag"
  let ?hdr = "u64_bytes ?len"
  let ?n = "Suc (unat ?len div 8)"
  let ?data = "take ?n (vector v)"
  have hdr: "?hdr \<noteq> []" "length ?hdr = 8"
    using length_u64_bytes[of ?len] by auto
  have data: "?data \<noteq> []" "length ?data = ?n"
    using assms by auto
  have w1: "pwrite fd ?hdr 8 offset =
      (8, fd\<lparr>bytes := take offset (bytes fd) @ replicate (offset - length (bytes fd)) 0 @ ?hdr
                     @ drop (offset + 8) (bytes fd)\<rparr>)"
    using pwrite_full[OF hdr(1), of fd offset] hdr(2) by simp
  let ?fd1 = "fd\<lparr>bytes := take offset (bytes fd) @ replicate (offset - length (bytes fd)) 0 @ ?hdr
                     @ drop (offset + 8) (bytes fd)\<rparr>"
  have fd1: "bytes ?fd1 = take offset (bytes fd) @ replicate (offset - length (bytes fd)) 0 @ ?hdr
                     @ drop (offset + 8) (bytes fd)"
    by simp
  have "pwrite ?fd1 (vector v) ?n (offset + 8) = pwrite ?fd1 ?data (length ?data) (offset + 8)"
    using data(2) by (simp add: pwrite_def)
  also have "\<dots> = (int ?n,
      ?fd1\<lparr>bytes := take (offset + 8) (bytes ?fd1) @ replicate (offset + 8 - length (bytes ?fd1)) 0
                 @ ?data @ drop (offset + 8 + ?n) (bytes ?fd1)\<rparr>)"
    using pwrite_full[OF data(1), of ?fd1 "offset + 8"] data(2) by simp
  also have "take (offset + 8) (bytes ?fd1) @ replicate (offset + 8 - length (bytes ?fd1)) 0
                 @ ?data @ drop (offset + 8 + ?n) (bytes ?fd1)
      = take offset (bytes fd) @ replicate (offset - length (bytes fd)) 0 @ ?hdr @ ?data
          @ drop (offset + 8 + ?n) (bytes fd)"
    unfolding fd1 by (rule overwrite_twice[OF hdr(2) data(2)])
  finally have w2: "pwrite ?fd1 (vector v) ?n (offset + 8) =
      (int ?n, fd\<lparr>bytes := take offset (bytes fd) @ replicate (offset - length (bytes fd)) 0
                        @ ?hdr @ ?data @ drop (offset + 8 + ?n) (bytes fd)\<rparr>)"
    by simp
  show ?thesis
    using assms
    by (simp add: bvector_output_def Let_def w1 unat_div8_plus1 w2)
qed

theorem bvector_output_layout_witness:
  "bvector_output \<lparr>vector = [5, 1], vector_length = 9, working_index = 3\<rparr>
       \<lparr>bytes = [7], position = 0\<rparr> 2 1
     = Inr (12, \<lparr>bytes = [7, 0, 9, 0, 0, 0, 0, 0, 0, 0, 5, 1], position = 0\<rparr>)"
proof -
  have "u64_bytes 9 = [9, 0, 0, 0, 0, 0, 0, 0]"
    by code_simp
  with bvector_output_layout[of "\<lparr>vector = [5, 1], vector_length = 9, working_index = 3\<rparr>" 1
      "\<lparr>bytes = [7], position = 0\<rparr>" 2]
  show ?thesis
    by (simp add: bvector_get_size_def VECTOR_FLAG_FULL_def)
qed

text \<open>
  The claim as stated asks for \<open>ceil (size / 8) + 1\<close> storage bytes. For a stream of 3 bits
  that would be 2 bytes and the result 10; the code writes 1 byte and returns 9.
\<close>

theorem bvector_output_ceil_counterexample:
  "bvector_output \<lparr>vector = [5], vector_length = 3, working_index = 3\<rparr>
       \<lparr>bytes = [], position = 0\<rparr> 0 VECTOR_FLAG_STREAM
     = Inr (9, \<lparr>bytes = [3, 0, 0, 0, 0, 0, 0, 0, 5], position = 0\<rparr>)"
  by code_simp

lemma VECTOR_BYTE_INDEX_unat: "VECTOR_BYTE_INDEX index = unat index div 8"
  by (simp add: VECTOR_BYTE_INDEX_def unat_div)

lemma VECTOR_BIT_INDEX_unat: "VECTOR_BIT_INDEX index = unat index mod 8"
proof -
  have "index AND 7 = take_bit 3 index"
    using take_bit_eq_mask[of 3 index] by (simp add: mask_eq_exp_minus_1)
  then have "index AND 7 = index mod 8"
    by (simp add: take_bit_eq_mod)
  then show ?thesis
    by (simp add: VECTOR_BIT_INDEX_def unat_mod)
qed

lemma check_mask: "k < 8 \<Longrightarrow> ((x :: 8 word) AND 2 ^ k \<noteq> 0) = bit x k"
  using bit_iff_and_push_bit_not_eq_0[of x k] by (simp add: push_bit_eq_mult)

lemma bvector_check_bit_getbit:
  assumes "index < vector_length v"
  shows "bvector_check_bit v index = (if getbit v (unat index) then 1 else 0)"
proof -
  from assms have "\<not> vector_length v \<le> index"
    by simp
  then show ?thesis
    by (simp add: bvector_check_bit_def getbit_def VECTOR_CHECK_STRING_def VECTOR_SET_STRING_def
        VECTOR_BYTE_INDEX_unat VECTOR_BIT_INDEX_unat check_mask)
qed

lemma set_mask_bit: "k < 8 \<Longrightarrow> j < 8 \<Longrightarrow> bit ((x :: 8 word) OR 2 ^ k) j = (j = k \<or> bit x j)"
  by (auto simp: bit_simps)

lemma clear_mask_bit: "k < 8 \<Longrightarrow> j < 8 \<Longrightarrow> bit ((x :: 8 word) AND NOT (2 ^ k)) j = (j \<noteq> k \<and> bit x j)"
  by (auto simp: bit_simps)

lemma div_mod_eq_iff: "(j :: nat) = i \<longleftrightarrow> j div 8 = i div 8 \<and> j mod 8 = i mod 8"
  by (metis div_mult_mod_eq)

lemma getbit_set:
  assumes "index < vector_length v" and "unat index div 8 < length (vector v)"
  shows "getbit (snd (bvector_set_bit v index)) j = (j = unat index \<or> getbit v j)"
proof -
  from assms have nle: "\<not> vector_length v \<le> index"
    by simp
  show ?thesis
  proof (cases "j div 8 = unat index div 8")
    case True
    then show ?thesis
      using assms nle div_mod_eq_iff[of j "unat index"]
      by (simp add: bvector_set_bit_def getbit_def VECTOR_SET_STRING_def
          VECTOR_BYTE_INDEX_unat VECTOR_BIT_INDEX_unat set_mask_bit)
  next
    case False
    then show ?thesis
      using assms nle
      by (auto simp: bvector_set_bit_def getbit_def VECTOR_BYTE_INDEX_unat)
  qed
qed

lemma getbit_clear:
  assumes "index < vector_length v" and "unat index div 8 < length (vector v)"
  shows "getbit (snd (bvector_clear_bit v index)) j = (j \<noteq> unat index \<and> getbit v j)"
proof -
  from assms have nle: "\<not> vector_length v \<le> index"
    by simp
  show ?thesis
  proof (cases "j div 8 = unat index div 8")
    case True
    then show ?thesis
      using assms nle div_mod_eq_iff[of j "unat index"]
      by (simp add: bvector_clear_bit_def getbit_def VECTOR_CLEAR_STRING_def VECTOR_SET_STRING_def
          VECTOR_BYTE_INDEX_unat VECTOR_BIT_INDEX_unat clear_mask_bit)
  next
    case False
    then show ?thesis
      using assms nle
      by (auto simp: bvector_clear_bit_def getbit_def VECTOR_BYTE_INDEX_unat)
  qed
qed


lemma unat_plus1_less: "(i :: 64 word) < n \<Longrightarrow> unat (i + 1) = Suc (unat i)"
proof -
  assume lt: "i < n"
  have "1 + i \<noteq> 0"
  proof
    assume "1 + i = 0"
    then have "i = - 1" by (simp add: add_eq_0_iff)
    with lt show False by simp
  qed
  then show ?thesis by (simp add: unatSuc add.commute)
qed

lemma append_bit_step:
  assumes ok: "alloc_ok v" and lt: "working_index v < vector_length v" and b: "b = 0 \<or> b = 1"
  shows "fst (bvector_append_bit v b junk) = SELF"
    and "vector_length (snd (bvector_append_bit v b junk)) = vector_length v"
    and "working_index (snd (bvector_append_bit v b junk)) = working_index v + 1"
    and "alloc_ok (snd (bvector_append_bit v b junk))"
    and "getbit (snd (bvector_append_bit v b junk)) j
           = (if j = unat (working_index v) then b = 1 else getbit v j)"
proof -
  from lt have ne: "working_index v \<noteq> vector_length v"
    by auto
  from lt have "unat (working_index v) < unat (vector_length v)"
    by (simp add: word_less_nat_alt)
  then have "unat (working_index v) div 8 \<le> unat (vector_length v) div 8"
    by (simp add: div_le_mono)
  with ok have inb: "unat (working_index v) div 8 < length (vector v)"
    by (simp add: alloc_ok_def)
  from b have nb: "\<not> 1 < b"
    by auto
  have app: "bvector_append_bit v b junk =
      (SELF, (if b = 0 then snd (bvector_clear_bit v (working_index v))
              else snd (bvector_set_bit v (working_index v)))
             \<lparr>working_index := working_index
                 (if b = 0 then snd (bvector_clear_bit v (working_index v))
                  else snd (bvector_set_bit v (working_index v))) + 1\<rparr>)"
    using ne nb by (simp add: bvector_append_bit_def Let_def)
  have fields:
    "vector_length (snd (bvector_clear_bit v i)) = vector_length v"
    "working_index (snd (bvector_clear_bit v i)) = working_index v"
    "length (vector (snd (bvector_clear_bit v i))) = length (vector v)"
    "vector_length (snd (bvector_set_bit v i)) = vector_length v"
    "working_index (snd (bvector_set_bit v i)) = working_index v"
    "length (vector (snd (bvector_set_bit v i))) = length (vector v)" for i
    by (simp_all add: bvector_clear_bit_def bvector_set_bit_def)
  show "fst (bvector_append_bit v b junk) = SELF"
    by (simp add: app)
  show "vector_length (snd (bvector_append_bit v b junk)) = vector_length v"
    by (simp add: app fields)
  show "working_index (snd (bvector_append_bit v b junk)) = working_index v + 1"
    by (simp add: app fields)
  show "alloc_ok (snd (bvector_append_bit v b junk))"
    using ok by (simp add: app fields alloc_ok_def)
  show "getbit (snd (bvector_append_bit v b junk)) j
           = (if j = unat (working_index v) then b = 1 else getbit v j)"
    using b getbit_set[OF lt inb, of j] getbit_clear[OF lt inb, of j]
    by (auto simp: app getbit_def)
qed

lemma valid_bits_Cons:
  "valid_bits (c # s) = (if c = CHR ''0'' then 0 # valid_bits s
                         else if c = CHR ''1'' then 1 # valid_bits s else valid_bits s)"
  by (simp add: valid_bits_def)

lemma length_valid_bits: "length (valid_bits s) \<le> length s"
  by (simp add: valid_bits_def)

lemma convert_loop_bits:
  assumes "alloc_ok temp"
    and "unat (working_index temp) + length s \<le> unat (vector_length temp)"
  shows "\<exists>t. convert_loop s temp junk = Some t \<and> vector_length t = vector_length temp \<and>
           alloc_ok t \<and>
           unat (working_index t) = unat (working_index temp) + length (valid_bits s) \<and>
           (\<forall>j < unat (working_index temp). getbit t j = getbit temp j) \<and>
           (\<forall>k < length (valid_bits s).
              getbit t (unat (working_index temp) + k) = (valid_bits s ! k = 1))"
  using assms
proof (induction s arbitrary: temp)
  case Nil
  then show ?case
    by (simp add: valid_bits_def)
next
  case (Cons c s)
  show ?case
  proof (cases "c = CHR ''0'' \<or> c = CHR ''1''")
    case False
    with Cons.IH[of temp] Cons.prems show ?thesis
      by (simp add: valid_bits_Cons)
  next
    case True
    define b :: "8 word" where "b = (if c = CHR ''0'' then 0 else 1)"
    define v1 where "v1 = snd (bvector_append_bit temp b junk)"
    have b01: "b = 0 \<or> b = 1"
      by (simp add: b_def)
    from Cons.prems(2) have ltn: "unat (working_index temp) < unat (vector_length temp)"
      by simp
    then have lt: "working_index temp < vector_length temp"
      by (simp add: word_less_nat_alt)
    note st = append_bit_step[OF Cons.prems(1) lt b01, of junk, folded v1_def]
    have wi1: "unat (working_index v1) = Suc (unat (working_index temp))"
      using st(3) unat_plus1_less[OF lt] by simp
    have step: "convert_loop (c # s) temp junk = convert_loop s v1 junk"
      using True st(1) by (auto simp: b_def v1_def split: prod.splits retptr.splits)
    have vb: "valid_bits (c # s) = (if b = 1 then 1 else 0) # valid_bits s"
      using True by (auto simp: valid_bits_Cons b_def)
    from Cons.prems(2) wi1 st(2)
    have "unat (working_index v1) + length s \<le> unat (vector_length v1)"
      by simp
    from Cons.IH[OF st(4) this] obtain t where
      t: "convert_loop s v1 junk = Some t" "vector_length t = vector_length v1" "alloc_ok t"
        "unat (working_index t) = unat (working_index v1) + length (valid_bits s)"
        "\<forall>j < unat (working_index v1). getbit t j = getbit v1 j"
        "\<forall>k < length (valid_bits s). getbit t (unat (working_index v1) + k) = (valid_bits s ! k = 1)"
      by blast
    have old: "getbit t j = getbit temp j" if "j < unat (working_index temp)" for j
      using that t(5) wi1 st(5)[of j] by simp
    have new: "getbit t (unat (working_index temp) + k) = (valid_bits (c # s) ! k = 1)"
      if "k < length (valid_bits (c # s))" for k
    proof (cases k)
      case 0
      have "getbit t (unat (working_index temp)) = getbit v1 (unat (working_index temp))"
        using t(5) wi1 by simp
      with st(5)[of "unat (working_index temp)"] 0 show ?thesis
        by (simp add: vb)
    next
      case (Suc k')
      with that have "k' < length (valid_bits s)"
        by (simp add: vb)
      with t(6) wi1 Suc show ?thesis
        by (simp add: vb)
    qed
    show ?thesis
      using step t(1-4) st(2) wi1 old new
      by (auto simp: vb)
  qed
qed


text \<open>
  Claim C8, as the code has it. For a string that is not empty (and shorter than \<open>2 ^ 64\<close>,
  as every C string is), \<^verbatim>\<open>bvector_convert\<close> returns a vector whose bits are the \<open>0\<close> and
  \<open>1\<close> characters of the string in order, every other character skipped, and whose length
  and working index both equal the number of those characters.
\<close>

theorem bvector_convert_bits:
  assumes "s \<noteq> []" and "length s < 2 ^ 64"
  shows "\<exists>v. bvector_convert s junk = Some v \<and>
           vector_length v = of_nat (length (valid_bits s)) \<and>
           working_index v = of_nat (length (valid_bits s)) \<and>
           bvector_bits v (length (valid_bits s)) = valid_bits s"
proof -
  define len :: "64 word" where "len = of_nat (length s)"
  define temp where "temp = \<lparr>vector = replicate (unat (len div 8 + 1)) 0,
                               vector_length = len, working_index = 0\<rparr>"
  have ulen: "unat len = length s"
    using assms(2) by (simp add: len_def unat_of_nat)
  with assms(1) have "len \<noteq> 0"
    by (metis length_0_conv unat_0)
  then have create: "bvector_create len = Some temp"
    by (simp add: bvector_create_def temp_def)
  have ok: "alloc_ok temp"
    by (simp add: alloc_ok_def temp_def unat_div8_plus1)
  have "unat (working_index temp) + length s \<le> unat (vector_length temp)"
    by (simp add: temp_def ulen)
  from convert_loop_bits[OF ok this, of junk] obtain t where
    t: "convert_loop s temp junk = Some t" "vector_length t = len" "alloc_ok t"
      "unat (working_index t) = length (valid_bits s)"
      "\<forall>k < length (valid_bits s). getbit t k = (valid_bits s ! k = 1)"
    by (auto simp: temp_def)
  let ?n = "length (valid_bits s)"
  define v where "v = t\<lparr>vector_length := working_index t,
                         vector := realloc (vector t) (unat (working_index t div 8 + 1)) junk\<rparr>"
  have conv: "bvector_convert s junk = Some v"
    using create t(1) by (simp add: bvector_convert_def bvector_resize_def v_def flip: len_def)
  have wi: "working_index t = of_nat ?n"
    using of_nat_unat[of "working_index t", where ?'a = "64 word"] t(4) by simp
  have "?n \<le> length s"
    by (rule length_valid_bits)
  then have "?n div 8 + 1 \<le> length (vector t)"
    using t(2,3) ulen by (simp add: alloc_ok_def div_le_mono)
  then have vec: "vector v = take (?n div 8 + 1) (vector t)"
    by (simp add: v_def realloc_def unat_div8_plus1 t(4))
  have bit_v: "bvector_check_bit v (of_nat k) = valid_bits s ! k" if "k < ?n" for k
  proof -
    have "k < 2 ^ 64"
      using that \<open>?n \<le> length s\<close> assms(2) by simp
    then have k: "unat (of_nat k :: 64 word) = k"
      by (simp add: unat_of_nat)
    then have "(of_nat k :: 64 word) < vector_length v"
      using that t(4) by (simp add: v_def word_less_nat_alt)
    from bvector_check_bit_getbit[OF this]
    have "bvector_check_bit v (of_nat k) = (if getbit v k then 1 else 0)"
      by (simp add: k)
    moreover have "getbit v k = getbit t k"
      using that by (simp add: getbit_def vec div_le_mono less_Suc_eq_le)
    moreover have "valid_bits s ! k = 0 \<or> valid_bits s ! k = 1"
      using that by (auto simp: valid_bits_def)
    ultimately show ?thesis
      using t(5) that by auto
  qed
  have "bvector_bits v ?n = valid_bits s"
    by (rule nth_equalityI) (simp_all add: bvector_bits_def bit_v)
  with conv wi show ?thesis
    by (simp add: v_def)
qed

theorem bvector_convert_bits_witness:
  "\<exists>v. bvector_convert ''01x10'' (\<lambda>i. 0) = Some v \<and> vector_length v = 4 \<and>
        working_index v = 4 \<and> bvector_bits v 4 = [0, 1, 1, 0]"
proof -
  have vb: "valid_bits ''01x10'' = [0, 1, 1, 0]"
    by (simp add: valid_bits_def)
  have len: "length [0, 1, 1, 0 :: int] = 4"
    by simp
  from bvector_convert_bits[of "''01x10''" "\<lambda>i. 0"] show ?thesis
    unfolding vb len by simp
qed

text \<open>
  The claim as stated covers every string. For the empty string \<^verbatim>\<open>strlen\<close> is 0, and
  \<^verbatim>\<open>bvector_create\<close> refuses the length 0: the result is NULL, not an empty vector.
\<close>

theorem bvector_convert_empty_counterexample:
  "bvector_convert [] (\<lambda>i. 0) = None"
  by (simp add: bvector_convert_def bvector_create_def)

section \<open>Properties of the frequency list\<close>

lemma helement_swap_list_append:
  "helement_swap_list (pre @ x # y # ys) (length pre) = pre @ y # x # ys"
  by (simp add: helement_swap_list_def nth_append list_update_append)

lemma list_fix_order_sorted:
  assumes "sorted (map frequency (pre @ suf))"
    and "\<forall>p \<in> set pre. frequency p \<le> frequency x"
  shows "sorted (map frequency (list (fst (list_fix_order (h\<lparr>list := pre @ x # suf\<rparr>) (length pre)))))"
  using assms
proof (induction suf arbitrary: pre h)
  case Nil
  then show ?case
    by (subst list_fix_order.simps) (auto simp: sorted_append)
next
  case (Cons y ys)
  show ?case
  proof (cases "frequency x \<le> frequency y")
    case True
    with Cons.prems show ?thesis
      by (subst list_fix_order.simps) (auto simp: sorted_append nth_append)
  next
    case False
    then have lt: "frequency y \<le> frequency x"
      by simp
    have "sorted (map frequency ((pre @ [y]) @ ys))"
      using Cons.prems(1) by simp
    moreover have "\<forall>p \<in> set (pre @ [y]). frequency p \<le> frequency x"
      using Cons.prems(2) lt by simp
    ultimately have "sorted (map frequency (list (fst (list_fix_order
        (h\<lparr>list := (pre @ [y]) @ x # ys\<rparr>) (length (pre @ [y]))))))"
      by (rule Cons.IH)
    moreover have "list_fix_order (h\<lparr>list := pre @ x # y # ys\<rparr>) (length pre)
        = list_fix_order (h\<lparr>list := (pre @ [y]) @ x # ys\<rparr>) (length (pre @ [y]))"
      using False
      by (subst list_fix_order.simps) (simp add: nth_append helement_swap_list_append)
    ultimately show ?thesis
      by simp
  qed
qed

lemma search_nodes_Some:
  "search_nodes ns e = Some n \<Longrightarrow> n < length ns \<and> element (ns ! n) = e"
  by (induction ns arbitrary: n) (auto split: if_splits)

lemma frequency_set_frequency [simp]: "frequency (set_frequency n f) = f"
  by (cases n) simp

text \<open>
  Claim C5, as the code has it. A call of \<^verbatim>\<open>hlist_add_increment_element\<close> on a list that is
  sorted by ascending frequency leaves it sorted, and the head then holds the least frequency
  of the list, provided the call does not increment a node whose frequency is
  \<open>2 ^ 64 - 1\<close>. (A special element is always added, never incremented.)
\<close>

theorem hlist_add_increment_element_sorted:
  assumes "sorted (map frequency (list hlist))"
    and "\<forall>n. \<not> (elem = LIST_SPECIAL_ELEMENT \<and> freq \<noteq> SPECIAL_ELEMENT_FREQUENCY) \<and>
              list_search hlist elem = Some n \<longrightarrow> frequency (list hlist ! n) \<noteq> - 1"
  shows "sorted (map frequency (list (snd (hlist_add_increment_element hlist elem freq)))) \<and>
         (\<forall>x \<in> set (list (snd (hlist_add_increment_element hlist elem freq))).
            frequency (hd (list (snd (hlist_add_increment_element hlist elem freq)))) \<le> frequency x)"
proof -
  let ?r = "snd (hlist_add_increment_element hlist elem freq)"
  let ?special = "elem = LIST_SPECIAL_ELEMENT \<and> freq \<noteq> SPECIAL_ELEMENT_FREQUENCY"
  have s: "sorted (map frequency (list ?r))"
  proof (cases "if ?special then None else list_search hlist elem")
    case None
    let ?x = "helement_create elem (if ?special then 0 else 1) freq"
    have "list_add hlist elem (if ?special then 0 else 1) freq
        = (hlist\<lparr>hlist.count := hlist.count hlist + 1\<rparr>)\<lparr>list := [] @ ?x # list hlist\<rparr>"
      by (simp add: list_add_def)
    moreover have "sorted (map frequency (list (fst (list_fix_order
        ((hlist\<lparr>hlist.count := hlist.count hlist + 1\<rparr>)\<lparr>list := [] @ ?x # list hlist\<rparr>) (length ([] :: helement list))))))"
      by (rule list_fix_order_sorted) (use assms(1) in simp_all)
    ultimately show ?thesis
      using None
      by (simp add: hlist_add_increment_element_def Let_def split_beta del: list_fix_order.simps)
  next
    case (Some n)
    then have ns: "\<not> ?special" and srch: "list_search hlist elem = Some n"
      by (auto split: if_splits)
    from srch have n: "n < length (list hlist)"
      using search_nodes_Some[of "list hlist" elem n] by (simp add: list_search_def)
    define y where "y = list hlist ! n"
    define pre where "pre = take n (list hlist)"
    define suf where "suf = drop (Suc n) (list hlist)"
    have split: "list hlist = pre @ y # suf"
      using n by (simp add: pre_def suf_def y_def id_take_nth_drop)
    have lpre: "length pre = n"
      using n by (simp add: pre_def)
    from assms(2) ns srch have "frequency y \<noteq> - 1"
      by (simp add: y_def)
    then have "frequency y < - 1"
      by (simp add: word_order.not_eq_extremum)
    then have "unat (frequency y + 1) = Suc (unat (frequency y))"
      by (rule unat_plus1_less)
    then have le: "frequency y \<le> frequency y + 1"
      by (simp add: word_le_nat_alt)
    let ?x = "set_frequency y (frequency y + 1)"
    have upd: "hlist\<lparr>list := (list hlist)[n := ?x]\<rparr> = hlist\<lparr>list := pre @ ?x # suf\<rparr>"
      using lpre by (simp add: split list_update_append)
    have "sorted (map frequency (pre @ suf))"
      using assms(1) by (auto simp: split sorted_append)
    moreover have "\<forall>p \<in> set pre. frequency p \<le> frequency ?x"
      using assms(1) le by (auto simp: split sorted_append intro: order_trans)
    ultimately have "sorted (map frequency (list (fst (list_fix_order
        (hlist\<lparr>list := pre @ ?x # suf\<rparr>) (length pre)))))"
      by (rule list_fix_order_sorted)
    then show ?thesis
      using Some upd lpre
      by (simp add: hlist_add_increment_element_def Let_def split_beta y_def
          del: list_fix_order.simps)
  qed
  have "frequency (hd xs) \<le> frequency x" if "sorted (map frequency xs)" "x \<in> set xs" for xs x
    using that by (cases xs) auto
  with s show ?thesis
    by blast
qed


theorem hlist_add_increment_element_sorted_witness:
  "sorted (map frequency (list (snd (hlist_add_increment_element
      \<lparr>list = [Helement 0x61 1 2 None None, Helement 0x62 1 2 None None,
               Helement 0x63 1 5 None None], count = 3\<rparr> 0x61 0))))"
  using hlist_add_increment_element_sorted[of
      "\<lparr>list = [Helement 0x61 1 2 None None, Helement 0x62 1 2 None None,
               Helement 0x63 1 5 None None], count = 3\<rparr>" "0x61" 0]
  by (simp add: list_search_def)

text \<open>
  The claim as stated covers every call. Two calls build the sorted list of \<open>b\<close> with
  frequency 5 and \<open>a\<close> with frequency \<open>2 ^ 64 - 1\<close>; the next call for \<open>a\<close> wraps its
  frequency to 0 behind \<open>b\<close>, and a node is only ever moved towards the tail.
\<close>

theorem hlist_add_increment_element_wrap_counterexample:
  "sorted (map frequency (list (snd (hlist_add_increment_element
       (snd (hlist_add_increment_element hlist_create 0x61 (- 1))) 0x62 5)))) \<and>
   \<not> sorted (map frequency (list (snd (hlist_add_increment_element
       (snd (hlist_add_increment_element
          (snd (hlist_add_increment_element hlist_create 0x61 (- 1))) 0x62 5)) 0x61 0))))"
  by code_simp

text \<open>
  Claim C6 at the input where the code departs from it. Four calls build a list of a special
  node (element \<open>0xFF\<close>, not a leaf, frequency 2) in front of the leaf for the byte \<open>0xFF\<close>
  (frequency 3). The next call for the byte \<open>0xFF\<close> with frequency 0 is not a special
  insertion and the leaf exists, but \<^verbatim>\<open>_search\<close> compares elements only and returns the special
  node: its frequency becomes 3, the frequency of the leaf stays 3.
\<close>

theorem hlist_add_increment_element_sentinel_collision:
  "snd (hlist_add_increment_element
          (snd (hlist_add_increment_element
             (snd (hlist_add_increment_element
                (snd (hlist_add_increment_element hlist_create 0xFF 0)) 0xFF 0)) 0xFF 0)) 0xFF 2)
     = \<lparr>list = [Helement 0xFF 0 2 None None, Helement 0xFF 1 3 None None], count = 2\<rparr> \<and>
   hlist_add_increment_element
       \<lparr>list = [Helement 0xFF 0 2 None None, Helement 0xFF 1 3 None None], count = 2\<rparr> 0xFF 0
     = (0, \<lparr>list = [Helement 0xFF 0 3 None None, Helement 0xFF 1 3 None None], count = 2\<rparr>)"
  by code_simp

section \<open>Serialising and reading back the tree\<close>

lemma serial_Helement:
  "serial (Helement e l f lc rc) =
     [e, l] @ (case lc of None \<Rightarrow> [] | Some a \<Rightarrow> serial a)
            @ (case rc of None \<Rightarrow> [] | Some b \<Rightarrow> serial b)"
  by (simp add: serial_def split: option.splits)

lemma length_serial: "length (serial n) = 2 * length (preorder n)"
  by (simp add: serial_def length_concat o_def split_beta sum_list_triv)

lemma preorder_nonempty: "preorder n \<noteq> []"
  by (cases n) simp

lemma serial_head: "\<exists>rest. serial n = element n # leaf_node n # rest"
  by (cases n) (simp add: serial_Helement)

lemma pwrite_append:
  "length (bytes fd) = offset \<Longrightarrow>
   pwrite fd [b] 1 offset = (1, fd\<lparr>bytes := bytes fd @ [b]\<rparr>)"
  by (simp add: pwrite_def Let_def)

lemma tree_output_append:
  "length (bytes fd) = offset \<Longrightarrow>
   tree_output n fd offset
     = (int (offset + 2 * length (preorder n)), fd\<lparr>bytes := bytes fd @ serial n\<rparr>)"
proof (induction n arbitrary: fd offset)
  case (Helement e l f lc rc)
  let ?fd2 = "fd\<lparr>bytes := bytes fd @ [e, l]\<rparr>"
  let ?nl = "length (case lc of None \<Rightarrow> [] | Some a \<Rightarrow> preorder a)"
  let ?sl = "case lc of None \<Rightarrow> [] | Some a \<Rightarrow> serial a"
  let ?nr = "length (case rc of None \<Rightarrow> [] | Some a \<Rightarrow> preorder a)"
  let ?sr = "case rc of None \<Rightarrow> [] | Some a \<Rightarrow> serial a"
  let ?fd3 = "fd\<lparr>bytes := bytes fd @ [e, l] @ ?sl\<rparr>"
  have w1: "pwrite fd [e] 1 offset = (1, fd\<lparr>bytes := bytes fd @ [e]\<rparr>)"
    using Helement.prems by (rule pwrite_append)
  have w2: "pwrite (fd\<lparr>bytes := bytes fd @ [e]\<rparr>) [l] 1 (offset + 1) = (1, ?fd2)"
    using Helement.prems pwrite_append[of "fd\<lparr>bytes := bytes fd @ [e]\<rparr>" "offset + 1" l] by simp
  have w1': "pwrite fd [e] (Suc 0) offset = (1, fd\<lparr>bytes := bytes fd @ [e]\<rparr>)"
    using w1 by simp
  have w2': "pwrite (fd\<lparr>bytes := bytes fd @ [e]\<rparr>) [l] (Suc 0) (Suc offset) = (1, ?fd2)"
    using w2 by simp
  have len2: "length (bytes ?fd2) = offset + 2"
    using Helement.prems by simp
  have nat2: "nat (2 + int k) = Suc (Suc k)" for k
    by simp
  have left: "(case lc of None \<Rightarrow> (int (offset + 2), ?fd2) | Some c \<Rightarrow> tree_output c ?fd2 (offset + 2))
      = (int (offset + 2 + 2 * ?nl), ?fd3)"
  proof (cases lc)
    case None
    then show ?thesis by simp
  next
    case (Some c)
    with Helement.IH(1)[of c ?fd2 "offset + 2"] len2 show ?thesis
      by simp
  qed
  have len3: "length (bytes ?fd3) = offset + 2 + 2 * ?nl"
    using Helement.prems by (simp add: length_serial split: option.splits)
  have right: "(case rc of None \<Rightarrow> (int (offset + 2 + 2 * ?nl), ?fd3)
                | Some c \<Rightarrow> tree_output c ?fd3 (offset + 2 + 2 * ?nl))
      = (int (offset + 2 + 2 * ?nl + 2 * ?nr), fd\<lparr>bytes := bytes fd @ [e, l] @ ?sl @ ?sr\<rparr>)"
  proof (cases rc)
    case None
    then show ?thesis by simp
  next
    case (Some c)
    with Helement.IH(2)[of c ?fd3 "offset + 2 + 2 * ?nl"] len3 show ?thesis
      by simp
  qed
  have "tree_output (Helement e l f lc rc) fd offset
      = (case (case lc of None \<Rightarrow> (int (offset + 2), ?fd2)
                | Some c \<Rightarrow> tree_output c ?fd2 (offset + 2)) of
           (ret, fd3) \<Rightarrow>
             if lc \<noteq> None \<and> ret = - 1 then (- 1, fd3)
             else (case rc of None \<Rightarrow> (ret, fd3)
                   | Some c \<Rightarrow> (case tree_output c fd3 (nat ret) of
                                 (ret1, fd4) \<Rightarrow> if ret1 = - 1 then (- 1, fd4) else (ret1, fd4))))"
    by (simp add: w1' w2' split: option.split)
  also have "\<dots> = (case rc of None \<Rightarrow> (int (offset + 2 + 2 * ?nl), ?fd3)
                | Some c \<Rightarrow> (case tree_output c ?fd3 (offset + 2 + 2 * ?nl) of
                                 (ret1, fd4) \<Rightarrow> if ret1 = - 1 then (- 1, fd4) else (ret1, fd4)))"
    unfolding left by (simp add: nat2 del: tree_output.simps of_nat_add of_nat_mult split: option.split)
  also have "\<dots> = (int (offset + 2 + 2 * ?nl + 2 * ?nr), fd\<lparr>bytes := bytes fd @ [e, l] @ ?sl @ ?sr\<rparr>)"
    using right by (cases rc) (simp_all del: tree_output.simps)
  finally show ?case
    by (simp add: serial_Helement)
qed


lemma tree_input_object_at:
  assumes "bytes fd = pre @ e # l # post" and "length pre = 8 + 2 * k"
  shows "tree_input_object fd k = Some (Helement e l DEFAULT_ELEMENT_FREQUENCY None None)"
  using assms
  by (simp add: tree_input_object_def pread_def Let_def TREE_INPUT_ELEMENT_OFFSET_def
      TREE_INPUT_LEAFNODE_OFFSET_def TREE_INPUT_OBJECT_OFFSET_def TREE_INPUT_COUNT_SIZE_def
      helement_create_def SPECIAL_ELEMENT_FREQUENCY_def)

lemma tree_input_full:
  assumes "full_tree n" and "bytes fd = pre @ serial n @ post" and "length pre = 8 + 2 * k"
  shows "tree_input fd (Helement (element n) (leaf_node n) DEFAULT_ELEMENT_FREQUENCY None None) k
           (leaf_node n)
         = (Some (k + length (preorder n) - 1), default_frequency n)"
  using assms
proof (induction n arbitrary: pre k post)
  case (Helement e l f lc rc)
  show ?case
  proof (cases "l \<noteq> 0")
    case True
    with Helement.prems(1) show ?thesis
      by simp
  next
    case False
    then have l0: "l = 0"
      by simp
    with Helement.prems(1) obtain a b where ch: "lc = Some a" "rc = Some b"
      and full: "full_tree a" "full_tree b"
      by (auto split: option.splits)
    let ?a0 = "Helement (element a) (leaf_node a) DEFAULT_ELEMENT_FREQUENCY None None"
    let ?b0 = "Helement (element b) (leaf_node b) DEFAULT_ELEMENT_FREQUENCY None None"
    let ?na = "length (preorder a)"
    let ?nb = "length (preorder b)"
    have na: "0 < ?na" and nb: "0 < ?nb"
      using preorder_nonempty by auto
    obtain ra where ra: "serial a = element a # leaf_node a # ra"
      using serial_head by blast
    obtain rb where rb: "serial b = element b # leaf_node b # rb"
      using serial_head by blast
    have bytes_a: "bytes fd = (pre @ [e, l]) @ serial a @ (serial b @ post)"
      using Helement.prems(2) ch by (simp add: serial_Helement)
    have len_a: "length (pre @ [e, l]) = 8 + 2 * (k + 1)"
      using Helement.prems(3) by simp
    have obj_a: "tree_input_object fd (k + 1) = Some ?a0"
      using tree_input_object_at[of fd "pre @ [e, l]" "element a" "leaf_node a"
          "ra @ serial b @ post" "k + 1"] bytes_a len_a ra
      by simp
    have in_a: "tree_input fd ?a0 (k + 1) (leaf_node a) = (Some (k + ?na), default_frequency a)"
      using Helement.IH(1)[of a "pre @ [e, l]" "serial b @ post" "k + 1"] ch full(1) bytes_a len_a na
      by simp
    have bytes_b: "bytes fd = (pre @ [e, l] @ serial a) @ serial b @ post"
      using bytes_a by simp
    have len_b: "length (pre @ [e, l] @ serial a) = 8 + 2 * (k + ?na + 1)"
      using Helement.prems(3) by (simp add: length_serial)
    have obj_b: "tree_input_object fd (k + ?na + 1) = Some ?b0"
      using tree_input_object_at[of fd "pre @ [e, l] @ serial a" "element b" "leaf_node b"
          "rb @ post" "k + ?na + 1"] bytes_b len_b rb
      by simp
    have in_b: "tree_input fd ?b0 (k + ?na + 1) (leaf_node b)
        = (Some (k + ?na + ?nb), default_frequency b)"
      using Helement.IH(2)[of b "pre @ [e, l] @ serial a" post "k + ?na + 1"] ch full(2)
        bytes_b len_b nb
      by simp
    show ?thesis
      using l0 ch obj_a in_a obj_b in_b
      by (subst tree_input.simps) simp
  qed
qed


lemma preorder_default_frequency: "preorder (default_frequency n) = preorder n"
  by (induction n) (auto split: option.splits)

lemma tree_parse_default_frequency:
  "tree_parse (default_frequency n) tbl s c = tree_parse n tbl s c"
proof (induction n arbitrary: tbl s c)
  case (Helement e l f lc rc)
  have left: "(case (case lc of None \<Rightarrow> None | Some a \<Rightarrow> Some (default_frequency a)) of
                None \<Rightarrow> Inr (tbl, c + 1)
              | Some x \<Rightarrow> if MAX_OPCODE \<le> length s + 1 then Inl Out_Of_Bounds
                  else tree_parse x tbl (s @ ''0'') (c + 1))
      = (case lc of
                None \<Rightarrow> Inr (tbl, c + 1)
              | Some x \<Rightarrow> if MAX_OPCODE \<le> length s + 1 then Inl Out_Of_Bounds
                  else tree_parse x tbl (s @ ''0'') (c + 1))"
    using Helement.IH(1) by (cases lc) simp_all
  have right: "(case (case rc of None \<Rightarrow> None | Some a \<Rightarrow> Some (default_frequency a)) of
                None \<Rightarrow> Inr (t1, c1)
              | Some x \<Rightarrow> if MAX_OPCODE \<le> length s + 1 then Inl Out_Of_Bounds
                  else tree_parse x t1 (s @ ''1'') c1)
      = (case rc of
                None \<Rightarrow> Inr (t1, c1)
              | Some x \<Rightarrow> if MAX_OPCODE \<le> length s + 1 then Inl Out_Of_Bounds
                  else tree_parse x t1 (s @ ''1'') c1)" for t1 c1
    using Helement.IH(2) by (cases rc) simp_all
  show ?case
    by (simp add: left right del: One_nat_def cong: sum.case_cong)
qed

lemma bytes_u64_step:
  "(ucast (ucast (w :: 64 word) :: 8 word) :: 64 word) OR push_bit 8 (take_bit m (drop_bit 8 w))
     = take_bit (8 + m) w"
  by (rule bit_word_eqI) (auto simp add: bit_simps)

lemma bytes_u64_le_bytes: "bytes_u64 (le_bytes n w) = take_bit (8 * n) w"
  by (induction n arbitrary: w) (simp_all add: bytes_u64_def bytes_u64_step)

lemma bytes_u64_u64_bytes: "bytes_u64 (u64_bytes w) = w"
  by (simp add: u64_bytes_def bytes_u64_le_bytes take_bit_word_eq_self)

text \<open>
  Claim C4. Let \<open>T\<close> be a parsed Huffman tree with a count of at least 1 (what
  \<^verbatim>\<open>htree_output\<close> demands) whose nodes other than leaves have two children each and whose
  leaves have none. \<^verbatim>\<open>htree_output\<close> into an empty file writes the count and the pre-order
  sequence of element and leaf flag; \<^verbatim>\<open>htree_input\<close> on that file, read from its start,
  returns the tree with the same count and the same nodes in the same places, every frequency
  at the default. Its pre-order sequence of elements and leaf flags is that of \<open>T\<close>, and
  \<^verbatim>\<open>_parse\<close> computes the same table and count for both. The reconstruction reads the left
  child of the node at index \<open>k\<close> at index \<open>k + 1\<close> and the right child one past the index
  that the recursion into the left child returns (\<open>tree_input_full\<close>).
\<close>

theorem htree_input_output:
  assumes "parsed htree" and "1 \<le> count htree" and "root htree = Some r" and "full_tree r"
  shows "\<exists>fd. htree_output htree \<lparr>bytes = [], position = 0\<rparr> 0
                = Inr (int (8 + 2 * length (preorder r)), fd) \<and>
              bytes fd = u64_bytes (count htree) @ serial r \<and>
              htree_input (fd\<lparr>position := 0\<rparr>)
                = (Some \<lparr>root = Some (default_frequency r), count = count htree, parsed = False\<rparr>,
                   fd\<lparr>position := 8\<rparr>) \<and>
              preorder (default_frequency r) = preorder r \<and>
              tree_parse (default_frequency r) (\<lambda>i. None) [] 0 = tree_parse r (\<lambda>i. None) [] 0"
proof -
  let ?hdr = "u64_bytes (count htree)"
  let ?fd1 = "\<lparr>bytes = ?hdr, position = 8\<rparr>"
  let ?fd = "\<lparr>bytes = ?hdr @ serial r, position = 8\<rparr>"
  let ?r0 = "Helement (element r) (leaf_node r) DEFAULT_ELEMENT_FREQUENCY None None"
  have hdr: "length ?hdr = 8"
    by (rule length_u64_bytes)
  then have "?hdr \<noteq> []"
    by auto
  then have w: "write_fd \<lparr>bytes = [], position = 0\<rparr> ?hdr 8 = (8, ?fd1)"
    using hdr by (simp add: write_fd_def pwrite_def Let_def)
  have out: "tree_output r ?fd1 8 = (int (8 + 2 * length (preorder r)), ?fd)"
    using tree_output_append[of ?fd1 8 r] hdr by simp
  from assms(2) have "\<not> count htree < 1"
    by (auto simp: word_le_nat_alt word_less_nat_alt)
  then have outp: "htree_output htree \<lparr>bytes = [], position = 0\<rparr> 0
      = Inr (int (8 + 2 * length (preorder r)), ?fd)"
    using assms(1,3) by (simp add: htree_output_def w out del: tree_output.simps)
  have rd: "read_fd \<lparr>bytes = ?hdr @ serial r, position = 0\<rparr> 8 = (?hdr, ?fd)"
    using hdr by (simp add: read_fd_def pread_def Let_def)
  obtain rest where rest: "serial r = element r # leaf_node r # rest"
    using serial_head by blast
  have obj: "tree_input_object ?fd 0 = Some ?r0"
    using tree_input_object_at[of ?fd ?hdr "element r" "leaf_node r" rest 0] hdr rest by simp
  have inp: "snd (tree_input ?fd ?r0 0 0) = default_frequency r"
  proof (cases "leaf_node r = 0")
    case True
    with tree_input_full[OF assms(4), of ?fd ?hdr "[]" 0] hdr show ?thesis
      by simp
  next
    case False
    with assms(4) have r: "r = Helement (element r) (leaf_node r) (frequency r) None None"
      by (cases r) simp
    then have "serial r = [element r, leaf_node r]"
      by (metis (no_types, lifting) append_Nil2 append_Cons append_Nil option.simps(4) serial_Helement)
    then have "tree_input_object ?fd (0 + 1) = None"
      using hdr by (simp add: tree_input_object_def pread_def Let_def TREE_INPUT_ELEMENT_OFFSET_def
          TREE_INPUT_LEAFNODE_OFFSET_def TREE_INPUT_OBJECT_OFFSET_def TREE_INPUT_COUNT_SIZE_def)
    then have "tree_input ?fd ?r0 0 0 = (None, ?r0)"
      by (subst tree_input.simps) simp
    moreover from r have "default_frequency r = ?r0"
      by (metis default_frequency.simps option.simps(4))
    ultimately show ?thesis
      by simp
  qed
  have inpt: "htree_input (?fd\<lparr>position := 0\<rparr>)
      = (Some \<lparr>root = Some (default_frequency r), count = count htree, parsed = False\<rparr>, ?fd)"
    using hdr
    by (simp add: htree_input_def rd obj inp htree_create_def bytes_u64_u64_bytes
        TREE_INPUT_COUNT_SIZE_def del: tree_input.simps)
  show ?thesis
    using outp inpt
    by (intro exI[of _ ?fd]) (simp add: preorder_default_frequency tree_parse_default_frequency)
qed


theorem htree_input_output_witness:
  "\<exists>fd. htree_output
          \<lparr>root = Some (Helement 255 0 2 (Some (Helement 98 1 1 None None))
                          (Some (Helement 97 1 1 None None))),
           count = 3, parsed = True\<rparr> \<lparr>bytes = [], position = 0\<rparr> 0 = Inr (14, fd) \<and>
        bytes fd = [3, 0, 0, 0, 0, 0, 0, 0, 255, 0, 98, 1, 97, 1] \<and>
        htree_input (fd\<lparr>position := 0\<rparr>)
          = (Some \<lparr>root = Some (Helement 255 0 1 (Some (Helement 98 1 1 None None))
                                   (Some (Helement 97 1 1 None None))),
                   count = 3, parsed = False\<rparr>,
             fd\<lparr>position := 8\<rparr>)"
proof -
  let ?r = "Helement 255 0 2 (Some (Helement 98 1 1 None None)) (Some (Helement 97 1 1 None None))"
  let ?t = "\<lparr>root = Some ?r, count = 3, parsed = True\<rparr>"
  have u: "u64_bytes 3 = [3, 0, 0, 0, 0, 0, 0, 0]"
    by code_simp
  from htree_input_output[of ?t ?r] obtain fd where
    "htree_output ?t \<lparr>bytes = [], position = 0\<rparr> 0 = Inr (int (8 + 2 * length (preorder ?r)), fd)"
    "bytes fd = u64_bytes (count ?t) @ serial ?r"
    "htree_input (fd\<lparr>position := 0\<rparr>)
       = (Some \<lparr>root = Some (default_frequency ?r), count = count ?t, parsed = False\<rparr>,
          fd\<lparr>position := 8\<rparr>)"
    by auto
  then show ?thesis
    by (intro exI[of _ fd]) (simp add: u serial_def DEFAULT_ELEMENT_FREQUENCY_def)
qed

section \<open>Properties of the decoder and the encoder\<close>





lemma truncated_artifact_steps:
  "decode_steps truncated_tree
      (vector_opcode_stream \<lparr>vector = [0], vector_length = 1, working_index = 1\<rparr>)
      (root truncated_tree) (- 1) []
    = Inr (Some (Helement 255 0 1 (Some (Helement 97 1 1 None None))
                        (Some (Helement 98 1 1 None None))), [])"
  by code_simp








lemma list_fix_order_single:
  "list_fix_order \<lparr>list = [n], count = c\<rparr> 0 = (\<lparr>list = [n], count = c\<rparr>, 0)"
  by (subst list_fix_order.simps) simp

lemma single_symbol_step:
  "snd (hlist_add_increment_element \<lparr>list = [Helement b 1 f None None], count = 1\<rparr> b
          SPECIAL_ELEMENT_FREQUENCY)
     = \<lparr>list = [Helement b 1 (f + 1) None None], count = 1\<rparr>"
  by (simp add: hlist_add_increment_element_def list_search_def SPECIAL_ELEMENT_FREQUENCY_def
      list_fix_order_single del: list_fix_order.simps)

lemma single_symbol_fold:
  "set input \<subseteq> {b} \<Longrightarrow>
   \<exists>f'. foldl (\<lambda>distribution_list elem.
              snd (hlist_add_increment_element distribution_list elem SPECIAL_ELEMENT_FREQUENCY))
         \<lparr>list = [Helement b 1 f None None], count = 1\<rparr> input
     = \<lparr>list = [Helement b 1 f' None None], count = 1\<rparr>"
proof (induction input arbitrary: f)
  case Nil
  then show ?case by simp
next
  case (Cons a input)
  then have "a = b" and "set input \<subseteq> {b}"
    by auto
  with Cons.IH[of "f + 1"] show ?case
    by (simp add: single_symbol_step del: list_fix_order.simps)
qed

lemma single_symbol_distribution:
  assumes "set input \<subseteq> {b}"
  shows "hlist.count (build_distribution input) < 2"
proof (cases input)
  case Nil
  then show ?thesis
    by (simp add: build_distribution_def hlist_create_def)
next
  case (Cons a rest)
  with assms have "a = b" and rest: "set rest \<subseteq> {b}"
    by auto
  have first: "snd (hlist_add_increment_element hlist_create b SPECIAL_ELEMENT_FREQUENCY)
      = \<lparr>list = [Helement b 1 1 None None], count = 1\<rparr>"
    by (simp add: hlist_add_increment_element_def list_search_def SPECIAL_ELEMENT_FREQUENCY_def
        hlist_create_def list_add_def helement_create_def DEFAULT_ELEMENT_FREQUENCY_def
        list_fix_order_single del: list_fix_order.simps)
  from single_symbol_fold[OF rest, of 1] obtain f' where
    "foldl (\<lambda>distribution_list elem.
              snd (hlist_add_increment_element distribution_list elem SPECIAL_ELEMENT_FREQUENCY))
         \<lparr>list = [Helement b 1 1 None None], count = 1\<rparr> rest
     = \<lparr>list = [Helement b 1 f' None None], count = 1\<rparr>"
    by blast
  then show ?thesis
    using Cons \<open>a = b\<close> first by (simp add: build_distribution_def)
qed

text \<open>
  Claim C1 at the inputs where the code departs from it. For an input that is empty or
  repeats a single byte value, the frequency list never holds two nodes, so the body of the
  merge loop does not run and \<^verbatim>\<open>parent\<close> is never assigned; \<^verbatim>\<open>huffman_encode\<close> then hands the
  uninitialised pointer to \<^verbatim>\<open>htree_add_element\<close> as the root. No artifact is produced that
  \<^verbatim>\<open>huffman_decode\<close> could turn back into the input.
\<close>

theorem huffman_encode_single_symbol:
  assumes "set input \<subseteq> {b}"
  shows "huffman_encode ascii_set input out_fd junk = Inl Uninitialised_Pointer"
proof -
  from single_symbol_distribution[OF assms]
  have "\<not> 2 \<le> hlist.count (build_distribution input)"
    by simp
  then have "hlist_get_two_min (build_distribution input)
      = Inr (- 2, None, build_distribution input)"
    by (simp add: hlist_get_two_min_def hlist_count_def)
  then have "merge_loop (build_distribution input) None
      = Inr (None, build_distribution input, None)"
    by (subst merge_loop.simps) simp
  then show ?thesis
    by (simp add: huffman_encode_def)
qed

theorem huffman_encode_single_symbol_witness:
  "huffman_encode False [0x61, 0x61, 0x61, 0x61] \<lparr>bytes = [], position = 0\<rparr> (\<lambda>i. 0)
     = Inl Uninitialised_Pointer"
  using huffman_encode_single_symbol[of "[0x61, 0x61, 0x61, 0x61]" "0x61" False
      "\<lparr>bytes = [], position = 0\<rparr>" "\<lambda>i. 0"]
  by simp

end
